theory Spec2Isabelle
  imports Complex_Main "HOL-Library.Word" "HOL-Library.While_Combinator" "HOL-Library.Multiset"
begin

section \<open>Data model\<close>

text \<open>
  The sprite utilities work on the RGBA buffer that \<^verbatim>\<open>getImageData\<close> hands back for
  a canvas holding the image: a \<^verbatim>\<open>Uint8ClampedArray\<close> of \<^verbatim>\<open>width * height * 4\<close> bytes in
  row-major order. The embedding starts at that buffer; decoding an image, acquiring a 2D
  drawing context and encoding a canvas as a data URL belong to the browser.

  A TypeScript \<^verbatim>\<open>number\<close> that crosses a function boundary (seed coordinates, tolerance,
  colour channels, rectangle fields, output sizes) is first taken as a \<^typ>\<open>real\<close>, without
  IEEE rounding, NaN or the infinities. Where a claim depends on them the function is given
  a second time: \<^verbatim>\<open>performFloodFill\<close> over numbers with NaN and the infinities,
  \<^verbatim>\<open>sliceFromRects\<close> over any arithmetic, \<^verbatim>\<open>detectSprites\<close> over any sort the engine may
  supply. Array indices and loop counters are \<^typ>\<open>nat\<close>, bytes of typed arrays are
  \<^typ>\<open>8 word\<close>.
\<close>

type_synonym byte = "8 word"

record image =
  img_width :: nat
  img_height :: nat
  img_data :: "byte list"

text \<open>
  What \<^verbatim>\<open>getImageData\<close> can return: it refuses an empty rectangle, so there is at least one
  pixel, and the buffer has four bytes for each.
\<close>

definition wf_image :: "image \<Rightarrow> bool" where
  "wf_image img \<longleftrightarrow>
     0 < img_width img \<and> 0 < img_height img \<and>
     length (img_data img) = 4 * (img_width img * img_height img)"

text \<open>\<^verbatim>\<open>Color\<close> of \<^verbatim>\<open>types.ts\<close>; the fields \<^verbatim>\<open>r\<close>, \<^verbatim>\<open>g\<close>, \<^verbatim>\<open>b\<close> carry a prefix.\<close>

record color =
  col_r :: real
  col_g :: real
  col_b :: real

section \<open>Matte: colour keying and mask application\<close>

text \<open>
  Both functions of this section end in \<^verbatim>\<open>ctx.putImageData(imageData, 0, 0)\<close>, and what
  leaves them is the canvas (\<^verbatim>\<open>canvas.toDataURL\<close>), not the array. A 2D canvas keeps its
  pixels premultiplied by alpha: a pixel written with alpha 0 keeps no colour and is read back
  as \<open>0, 0, 0, 0\<close>. \<open>putImageData data\<close> is the buffer the canvas gives back after \<open>data\<close>
  was written to it. An opaque pixel is stored as it is. For a pixel with alpha strictly
  between 0 and 255 the store rounds the colour bytes, and a pixel that was itself read from a
  canvas is a fixed point of that rounding; the two functions write such a pixel only as they
  read it, so its bytes are kept here.
\<close>

definition putImageData :: "byte list \<Rightarrow> byte list" where
  "putImageData data =
     map (\<lambda>j. if 4 * (j div 4) + 3 < length data \<and> data ! (4 * (j div 4) + 3) = 0 then 0
               else data ! j)
       [0..<length data]"

text \<open>A buffer a canvas can give back: writing it to a canvas and reading again changes nothing.\<close>

definition canvas_read :: "byte list \<Rightarrow> bool" where
  "canvas_read data \<longleftrightarrow> putImageData data = data"

text \<open>
  \<^verbatim>\<open>removeBackgroundFromContext\<close>: the tolerance is the local constant of the source,
  not an argument. The argument \<open>data\<close> is what \<^verbatim>\<open>ctx.getImageData\<close> reads at entry, the
  result is what the canvas holds at exit.
\<close>

definition tolerance :: real where
  "tolerance = 30"

definition color_diff :: "byte \<Rightarrow> byte \<Rightarrow> byte \<Rightarrow> color \<Rightarrow> real" where
  "color_diff r g b bgColor =
     \<bar>real_of_int (uint r) - col_r bgColor\<bar> + \<bar>real_of_int (uint g) - col_g bgColor\<bar>
       + \<bar>real_of_int (uint b) - col_b bgColor\<bar>"

text \<open>One iteration of the loop \<^verbatim>\<open>for (let i = 0; i < data.length; i += 4)\<close>.\<close>

definition key_pixel :: "color \<Rightarrow> nat \<Rightarrow> byte list \<Rightarrow> byte list" where
  "key_pixel bgColor i data =
     (let r = data ! i; g = data ! (i + 1); b = data ! (i + 2); a = data ! (i + 3) in
      if a = 0 then data
      else let diff = color_diff r g b bgColor in
        if diff \<le> tolerance then data[i + 3 := 0] else data)"

definition removeBackgroundFromContext :: "byte list \<Rightarrow> color \<Rightarrow> byte list" where
  "removeBackgroundFromContext data bgColor =
     putImageData (fold (key_pixel bgColor) (map (\<lambda>k. 4 * k) [0..<(length data + 3) div 4]) data)"

text \<open>
  \<^verbatim>\<open>applyTransparency\<close>: the loop runs over the mask, whatever its length; a write past the
  end of a typed array is dropped, as \<open>xs[i := v]\<close> is the identity there. The image given is
  the buffer read from the canvas after \<^verbatim>\<open>drawImage\<close>; the result is the image the returned
  data URL encodes, that is the canvas after \<^verbatim>\<open>putImageData\<close>.
\<close>

definition mask_pixel :: "byte list \<Rightarrow> nat \<Rightarrow> byte list \<Rightarrow> byte list" where
  "mask_pixel msk i data = (if msk ! i = 1 then data[i * 4 + 3 := 0] else data)"

definition applyTransparency :: "image \<Rightarrow> byte list \<Rightarrow> image" where
  "applyTransparency img msk =
     img\<lparr>img_data := putImageData (fold (mask_pixel msk) [0..<length msk] (img_data img))\<rparr>"

text \<open>Specification side: when the colour key hits pixel \<open>k\<close> of a buffer.\<close>

definition keyed :: "color \<Rightarrow> byte list \<Rightarrow> nat \<Rightarrow> bool" where
  "keyed bgColor data k \<longleftrightarrow>
     data ! (4 * k + 3) \<noteq> 0 \<and>
     color_diff (data ! (4 * k)) (data ! (4 * k + 1)) (data ! (4 * k + 2)) bgColor \<le> 30"

section \<open>FloodSelector: \<^verbatim>\<open>performFloodFill\<close>\<close>

text \<open>
  The four neighbours of the popped pixel, in the order of the source. Pixel coordinates
  are natural numbers (\<^verbatim>\<open>idx % width\<close>, \<^verbatim>\<open>Math.floor(idx / width)\<close>); a neighbour may
  lie one step outside the image, so neighbours are integers and are tested before use.
\<close>

definition neighbors :: "nat \<Rightarrow> nat \<Rightarrow> (int \<times> int) list" where
  "neighbors x y = [(int x + 1, int y), (int x - 1, int y), (int x, int y + 1), (int x, int y - 1)]"

text \<open>
  The work list \<^verbatim>\<open>queue\<close> is used as a stack (\<^verbatim>\<open>push\<close>, \<^verbatim>\<open>pop\<close>): a list whose head is the
  top. The loop state is the stack with the typed arrays \<^verbatim>\<open>visited\<close> and \<^verbatim>\<open>mask\<close>.
\<close>

type_synonym ff_state = "nat list \<times> byte list \<times> byte list"

text \<open>The body of \<^verbatim>\<open>for (const {nx, ny} of neighbors)\<close>.\<close>

definition ff_visit :: "image \<Rightarrow> byte \<times> byte \<times> byte \<Rightarrow> real \<Rightarrow> int \<times> int \<Rightarrow> ff_state \<Rightarrow> ff_state" where
  "ff_visit img start tol n s =
     (case n of (nx, ny) \<Rightarrow> case s of (queue, visited, msk) \<Rightarrow>
      case start of (startR, startG, startB) \<Rightarrow>
        if nx \<ge> 0 \<and> nx < int (img_width img) \<and> ny \<ge> 0 \<and> ny < int (img_height img) then
          let nIdx = nat (ny * int (img_width img) + nx) in
          if visited ! nIdx = 0 then
            let pixelIdx = nIdx * 4;
                r = img_data img ! pixelIdx;
                g = img_data img ! (pixelIdx + 1);
                b = img_data img ! (pixelIdx + 2);
                a = img_data img ! (pixelIdx + 3);
                diff = \<bar>uint r - uint startR\<bar> + \<bar>uint g - uint startG\<bar> + \<bar>uint b - uint startB\<bar>
            in if a > 0 \<and> real_of_int diff \<le> tol
               then (nIdx # queue, visited[nIdx := 1], msk[nIdx := 1])
               else s
          else s
        else s)"

text \<open>
  The body of \<^verbatim>\<open>while (queue.length > 0)\<close>. The loop test keeps the second equation
  from ever being used.
\<close>

fun ff_step :: "image \<Rightarrow> byte \<times> byte \<times> byte \<Rightarrow> real \<Rightarrow> ff_state \<Rightarrow> ff_state" where
  "ff_step img start tol (idx # queue, visited, msk) =
     (let x = idx mod img_width img; y = idx div img_width img in
      fold (ff_visit img start tol) (neighbors x y) (queue, visited, msk))"
| "ff_step img start tol ([], visited, msk) = ([], visited, msk)"

definition ff_loop :: "image \<Rightarrow> byte \<times> byte \<times> byte \<Rightarrow> real \<Rightarrow> ff_state \<Rightarrow> ff_state option" where
  "ff_loop img start tol = while_option (\<lambda>(queue, visited, msk). queue \<noteq> []) (ff_step img start tol)"

text \<open>
  \<^verbatim>\<open>performFloodFill\<close>. The outer \<open>option\<close> is the loop: \<open>None\<close> would be a loop that
  never ends. The inner one is the result of the source: \<open>None\<close> for \<^verbatim>\<open>null\<close>,
  \<open>Some\<close> for the mask. The parameter \<^verbatim>\<open>tolerance\<close> is written \<open>tol\<close> here; its default
  of 30 is what a caller passes when it passes nothing.
\<close>

definition performFloodFill :: "image \<Rightarrow> real \<Rightarrow> real \<Rightarrow> real \<Rightarrow> byte list option option" where
  "performFloodFill img startX startY tol =
     (let width = img_width img; height = img_height img in
      if startX < 0 \<or> startX \<ge> real width \<or> startY < 0 \<or> startY \<ge> real height then Some None
      else
        let msk = replicate (width * height) (0 :: byte);
            visited = replicate (width * height) (0 :: byte);
            seed = nat (\<lfloor>startY\<rfloor> * int width + \<lfloor>startX\<rfloor>);
            startIdx = seed * 4;
            startR = img_data img ! startIdx;
            startG = img_data img ! (startIdx + 1);
            startB = img_data img ! (startIdx + 2);
            startA = img_data img ! (startIdx + 3)
        in if startA = 0 then Some None
           else map_option (\<lambda>(queue, visited, msk). Some msk)
                  (ff_loop img (startR, startG, startB) tol
                     ([seed], visited[seed := 1], msk[seed := 1])))"

section \<open>FloodSelector on every JavaScript number\<close>

text \<open>
  The seed and the tolerance of \<^verbatim>\<open>performFloodFill\<close> are of type \<^verbatim>\<open>number\<close>, which holds
  more than the reals: the two infinities and NaN. Every comparison with NaN is false, so a
  NaN coordinate passes the four comparisons of the bounds check, and what the function does
  then is part of its behaviour. This section gives the function once more over all
  numbers; on real arguments it is \<open>performFloodFill\<close> above. A number is a real, an
  infinity or NaN; the numbers of this function are coordinates, pixel indices and sums of
  byte differences, on which IEEE arithmetic does not round, and the two zeros are one.
\<close>

datatype jsnum = Fin real | PosInf | NegInf | NaN

text \<open>The comparisons \<^verbatim>\<open><\<close> and \<^verbatim>\<open><=\<close>; \<^verbatim>\<open>a > b\<close> is \<^verbatim>\<open>b < a\<close> and \<^verbatim>\<open>a >= b\<close> is \<^verbatim>\<open>b <= a\<close>.\<close>

fun js_lt :: "jsnum \<Rightarrow> jsnum \<Rightarrow> bool" where
  "js_lt (Fin x) (Fin y) = (x < y)"
| "js_lt (Fin x) PosInf = True"
| "js_lt NegInf (Fin y) = True"
| "js_lt NegInf PosInf = True"
| "js_lt _ _ = False"

fun js_le :: "jsnum \<Rightarrow> jsnum \<Rightarrow> bool" where
  "js_le (Fin x) (Fin y) = (x \<le> y)"
| "js_le NaN _ = False"
| "js_le _ NaN = False"
| "js_le NegInf _ = True"
| "js_le _ PosInf = True"
| "js_le _ _ = False"

definition js_gt :: "jsnum \<Rightarrow> jsnum \<Rightarrow> bool" where
  "js_gt a b = js_lt b a"

definition js_ge :: "jsnum \<Rightarrow> jsnum \<Rightarrow> bool" where
  "js_ge a b = js_le b a"

text \<open>The operators \<^verbatim>\<open>+\<close>, \<^verbatim>\<open>-\<close>, \<^verbatim>\<open>*\<close>, \<^verbatim>\<open>/\<close>, \<^verbatim>\<open>%\<close> and \<^verbatim>\<open>Math.floor\<close>, \<^verbatim>\<open>Math.abs\<close>.\<close>

fun js_add :: "jsnum \<Rightarrow> jsnum \<Rightarrow> jsnum" where
  "js_add (Fin x) (Fin y) = Fin (x + y)"
| "js_add NaN _ = NaN"
| "js_add _ NaN = NaN"
| "js_add PosInf NegInf = NaN"
| "js_add NegInf PosInf = NaN"
| "js_add PosInf _ = PosInf"
| "js_add _ PosInf = PosInf"
| "js_add NegInf _ = NegInf"
| "js_add _ NegInf = NegInf"

fun js_neg :: "jsnum \<Rightarrow> jsnum" where
  "js_neg (Fin x) = Fin (- x)"
| "js_neg PosInf = NegInf"
| "js_neg NegInf = PosInf"
| "js_neg NaN = NaN"

definition js_sub :: "jsnum \<Rightarrow> jsnum \<Rightarrow> jsnum" where
  "js_sub a b = js_add a (js_neg b)"

fun js_sign :: "jsnum \<Rightarrow> real" where
  "js_sign (Fin x) = sgn x"
| "js_sign PosInf = 1"
| "js_sign NegInf = - 1"
| "js_sign NaN = 0"

fun js_mul :: "jsnum \<Rightarrow> jsnum \<Rightarrow> jsnum" where
  "js_mul (Fin x) (Fin y) = Fin (x * y)"
| "js_mul NaN _ = NaN"
| "js_mul _ NaN = NaN"
| "js_mul a b =
     (if js_sign a * js_sign b > 0 then PosInf
      else if js_sign a * js_sign b < 0 then NegInf else NaN)"

fun js_div :: "jsnum \<Rightarrow> jsnum \<Rightarrow> jsnum" where
  "js_div (Fin x) (Fin y) =
     (if y \<noteq> 0 then Fin (x / y) else if x > 0 then PosInf else if x < 0 then NegInf else NaN)"
| "js_div NaN _ = NaN"
| "js_div _ NaN = NaN"
| "js_div (Fin x) _ = Fin 0"
| "js_div a (Fin y) = (if js_sign a * (if y < 0 then - 1 else 1) > 0 then PosInf else NegInf)"
| "js_div _ _ = NaN"

fun js_rem :: "jsnum \<Rightarrow> jsnum \<Rightarrow> jsnum" where
  "js_rem (Fin x) (Fin y) =
     (if y = 0 then NaN
      else Fin (x - y * of_int (if x / y < 0 then \<lceil>x / y\<rceil> else \<lfloor>x / y\<rfloor>)))"
| "js_rem NaN _ = NaN"
| "js_rem _ NaN = NaN"
| "js_rem (Fin x) _ = Fin x"
| "js_rem _ _ = NaN"

fun js_floor :: "jsnum \<Rightarrow> jsnum" where
  "js_floor (Fin x) = Fin (of_int \<lfloor>x\<rfloor>)"
| "js_floor a = a"

fun js_abs :: "jsnum \<Rightarrow> jsnum" where
  "js_abs (Fin x) = Fin \<bar>x\<bar>"
| "js_abs NaN = NaN"
| "js_abs _ = PosInf"

text \<open>
  A typed array indexed by a number. The number is an index of the array when it is an
  integer from 0 below the length. Reading at any other number gives \<^verbatim>\<open>undefined\<close>, here
  \<open>None\<close>, and writing there does nothing. \<^verbatim>\<open>undefined\<close> counts as NaN in arithmetic
  and comparisons, and \<^verbatim>\<open>!v\<close> holds of \<^verbatim>\<open>undefined\<close> and of 0.
\<close>

definition js_index :: "jsnum \<Rightarrow> nat \<Rightarrow> nat option" where
  "js_index i n =
     (case i of
        Fin x \<Rightarrow> if of_int \<lfloor>x\<rfloor> = x \<and> 0 \<le> x \<and> x < real n then Some (nat \<lfloor>x\<rfloor>) else None
      | _ \<Rightarrow> None)"

definition ta_get :: "byte list \<Rightarrow> jsnum \<Rightarrow> byte option" where
  "ta_get xs i = map_option (\<lambda>k. xs ! k) (js_index i (length xs))"

definition ta_set :: "byte list \<Rightarrow> jsnum \<Rightarrow> byte \<Rightarrow> byte list" where
  "ta_set xs i v = (case js_index i (length xs) of Some k \<Rightarrow> xs[k := v] | None \<Rightarrow> xs)"

definition js_num :: "byte option \<Rightarrow> jsnum" where
  "js_num b = (case b of Some v \<Rightarrow> Fin (real_of_int (uint v)) | None \<Rightarrow> NaN)"

definition js_not :: "byte option \<Rightarrow> bool" where
  "js_not b \<longleftrightarrow> b = None \<or> b = Some 0"

text \<open>The body of \<^verbatim>\<open>for (const {nx, ny} of neighbors)\<close>, the body of the loop, the loop.\<close>

type_synonym ffj_state = "jsnum list \<times> byte list \<times> byte list"

definition ffj_visit ::
  "image \<Rightarrow> byte option \<times> byte option \<times> byte option \<Rightarrow> jsnum \<Rightarrow> jsnum \<times> jsnum \<Rightarrow> ffj_state \<Rightarrow> ffj_state" where
  "ffj_visit img start tol n s =
     (case n of (nx, ny) \<Rightarrow> case s of (queue, visited, msk) \<Rightarrow>
      case start of (startR, startG, startB) \<Rightarrow>
        let width = Fin (real (img_width img)); height = Fin (real (img_height img)) in
        if js_ge nx (Fin 0) \<and> js_lt nx width \<and> js_ge ny (Fin 0) \<and> js_lt ny height then
          let nIdx = js_add (js_mul ny width) nx in
          if js_not (ta_get visited nIdx) then
            let pixelIdx = js_mul nIdx (Fin 4);
                r = ta_get (img_data img) pixelIdx;
                g = ta_get (img_data img) (js_add pixelIdx (Fin 1));
                b = ta_get (img_data img) (js_add pixelIdx (Fin 2));
                a = ta_get (img_data img) (js_add pixelIdx (Fin 3));
                diff = js_add (js_add (js_abs (js_sub (js_num r) (js_num startR)))
                                      (js_abs (js_sub (js_num g) (js_num startG))))
                              (js_abs (js_sub (js_num b) (js_num startB)))
            in if js_gt (js_num a) (Fin 0) \<and> js_le diff tol
               then (nIdx # queue, ta_set visited nIdx 1, ta_set msk nIdx 1)
               else s
          else s
        else s)"

fun ffj_step :: "image \<Rightarrow> byte option \<times> byte option \<times> byte option \<Rightarrow> jsnum \<Rightarrow> ffj_state \<Rightarrow> ffj_state" where
  "ffj_step img start tol (idx # queue, visited, msk) =
     (let width = Fin (real (img_width img));
          x = js_rem idx width;
          y = js_floor (js_div idx width)
      in fold (ffj_visit img start tol)
           [(js_add x (Fin 1), y), (js_sub x (Fin 1), y), (x, js_add y (Fin 1)), (x, js_sub y (Fin 1))]
           (queue, visited, msk))"
| "ffj_step img start tol ([], visited, msk) = ([], visited, msk)"

definition ffj_loop ::
  "image \<Rightarrow> byte option \<times> byte option \<times> byte option \<Rightarrow> jsnum \<Rightarrow> ffj_state \<Rightarrow> ffj_state option" where
  "ffj_loop img start tol = while_option (\<lambda>(queue, visited, msk). queue \<noteq> []) (ffj_step img start tol)"

text \<open>\<^verbatim>\<open>performFloodFill\<close>; the two \<open>option\<close>s are those of \<open>performFloodFill\<close> above.\<close>

definition performFloodFill_js :: "image \<Rightarrow> jsnum \<Rightarrow> jsnum \<Rightarrow> jsnum \<Rightarrow> byte list option option" where
  "performFloodFill_js img startX startY tol =
     (let width = img_width img; height = img_height img in
      if js_lt startX (Fin 0) \<or> js_ge startX (Fin (real width)) \<or>
         js_lt startY (Fin 0) \<or> js_ge startY (Fin (real height)) then Some None
      else
        let msk = replicate (width * height) (0 :: byte);
            visited = replicate (width * height) (0 :: byte);
            seed = js_add (js_mul (js_floor startY) (Fin (real width))) (js_floor startX);
            startIdx = js_mul seed (Fin 4);
            startR = ta_get (img_data img) startIdx;
            startG = ta_get (img_data img) (js_add startIdx (Fin 1));
            startB = ta_get (img_data img) (js_add startIdx (Fin 2));
            startA = ta_get (img_data img) (js_add startIdx (Fin 3))
        in if startA = Some 0 then Some None
           else map_option (\<lambda>(queue, visited, msk). Some msk)
                  (ffj_loop img (startR, startG, startB) tol
                     ([seed], ta_set visited seed 1, ta_set msk seed 1)))"
section \<open>RegionDetector: \<^verbatim>\<open>detectSprites\<close>\<close>

text \<open>\<^verbatim>\<open>Rect\<close> of \<^verbatim>\<open>types.ts\<close>; a point of the optional lasso path is a pair.\<close>

record rect =
  rect_x :: real
  rect_y :: real
  rect_width :: real
  rect_height :: real
  rect_path :: "(real \<times> real) list option"

definition alphaThreshold :: byte where
  "alphaThreshold = 10"

text \<open>The state of the inner flood fill: stack, \<^verbatim>\<open>visited\<close>, and the four extremes.\<close>

type_synonym ds_state = "nat list \<times> byte list \<times> nat \<times> nat \<times> nat \<times> nat"

definition ds_visit :: "image \<Rightarrow> int \<times> int \<Rightarrow> nat list \<times> byte list \<Rightarrow> nat list \<times> byte list" where
  "ds_visit img n s =
     (case n of (nx, ny) \<Rightarrow> case s of (queue, visited) \<Rightarrow>
        if nx \<ge> 0 \<and> nx < int (img_width img) \<and> ny \<ge> 0 \<and> ny < int (img_height img) then
          let nIdx = nat (ny * int (img_width img) + nx) in
          if visited ! nIdx = 0 then
            let nAlpha = img_data img ! (nIdx * 4 + 3) in
            if nAlpha > alphaThreshold then (nIdx # queue, visited[nIdx := 1]) else s
          else s
        else s)"

fun ds_step :: "image \<Rightarrow> ds_state \<Rightarrow> ds_state" where
  "ds_step img (currIdx # queue, visited, minX, maxX, minY, maxY) =
     (let currX = currIdx mod img_width img;
          currY = currIdx div img_width img;
          minX = (if currX < minX then currX else minX);
          maxX = (if currX > maxX then currX else maxX);
          minY = (if currY < minY then currY else minY);
          maxY = (if currY > maxY then currY else maxY);
          (queue, visited) = fold (ds_visit img) (neighbors currX currY) (queue, visited)
      in (queue, visited, minX, maxX, minY, maxY))"
| "ds_step img ([], visited, minX, maxX, minY, maxY) = ([], visited, minX, maxX, minY, maxY)"

definition ds_loop :: "image \<Rightarrow> ds_state \<Rightarrow> ds_state option" where
  "ds_loop img = while_option (\<lambda>(queue, visited, minX, maxX, minY, maxY). queue \<noteq> []) (ds_step img)"

text \<open>A loop whose body may not return: the fold of the option monad.\<close>

fun opt_fold :: "('a \<Rightarrow> 's \<Rightarrow> 's option) \<Rightarrow> 'a list \<Rightarrow> 's \<Rightarrow> 's option" where
  "opt_fold f [] s = Some s"
| "opt_fold f (a # as) s = (case f a s of None \<Rightarrow> None | Some s' \<Rightarrow> opt_fold f as s')"

text \<open>The body of the two scanning loops, at pixel \<open>(x, y)\<close>; the state is \<^verbatim>\<open>visited\<close> and \<^verbatim>\<open>rects\<close>.\<close>

definition ds_pixel :: "image \<Rightarrow> nat \<Rightarrow> nat \<Rightarrow> byte list \<times> rect list \<Rightarrow> (byte list \<times> rect list) option" where
  "ds_pixel img y x s =
     (case s of (visited, rects) \<Rightarrow>
      let width = img_width img; height = img_height img; idx = y * width + x in
      if visited ! idx \<noteq> 0 then Some s
      else
        let alpha = img_data img ! (idx * 4 + 3) in
        if alpha > alphaThreshold then
          (case ds_loop img ([idx], visited[idx := 1], x, x, y, y) of
             None \<Rightarrow> None
           | Some (queue, visited, minX, maxX, minY, maxY) \<Rightarrow>
               Some (visited,
                     rects @ [\<lparr>rect_x = max 0 (real minX),
                               rect_y = max 0 (real minY),
                               rect_width = min (real width - real minX) (real maxX - real minX + 1),
                               rect_height = min (real height - real minY) (real maxY - real minY + 1),
                               rect_path = None\<rparr>]))
        else Some s)"

definition ds_scan :: "image \<Rightarrow> (byte list \<times> rect list) option" where
  "ds_scan img =
     opt_fold (\<lambda>y. opt_fold (ds_pixel img y) [0..<img_width img]) [0..<img_height img]
       (replicate (img_width img * img_height img) 0, [])"

text \<open>The comparator handed to \<^verbatim>\<open>rects.sort\<close>.\<close>

definition compare_rects :: "rect \<Rightarrow> rect \<Rightarrow> real" where
  "compare_rects a b =
     (let rowDiff = rect_y a - rect_y b in
      if \<bar>rowDiff\<bar> > 10 then rowDiff else rect_x a - rect_x b)"

text \<open>
  \<^verbatim>\<open>Array.prototype.sort\<close> belongs to the JavaScript engine, not to this repository.
  ECMAScript asks for a stable sort that calls the comparator and places \<open>a\<close> before \<open>b\<close>
  when it returns a negative number; for a comparator that is not a consistent order the
  resulting permutation is left to the engine. The model is the stable insertion sort:
  each element in turn goes in front of the first element it is strictly less than.
\<close>

fun sort_insert :: "('a \<Rightarrow> 'a \<Rightarrow> real) \<Rightarrow> 'a \<Rightarrow> 'a list \<Rightarrow> 'a list" where
  "sort_insert cmp a [] = [a]"
| "sort_insert cmp a (b # bs) = (if cmp a b < 0 then a # b # bs else b # sort_insert cmp a bs)"

definition js_sort :: "('a \<Rightarrow> 'a \<Rightarrow> real) \<Rightarrow> 'a list \<Rightarrow> 'a list" where
  "js_sort cmp xs = fold (sort_insert cmp) xs []"

definition detectSprites :: "image \<Rightarrow> rect list option" where
  "detectSprites img = map_option (\<lambda>(visited, rects). js_sort compare_rects rects) (ds_scan img)"

text \<open>
  What ECMAScript promises of \<^verbatim>\<open>Array.prototype.sort\<close> in every engine. A comparator is a
  consistent comparison function for a set of values when, with \<open>a <\<^sub>C\<^sub>F b\<close> for
  \<open>cmp a b < 0\<close>, \<open>a =\<^sub>C\<^sub>F b\<close> for \<open>cmp a b = 0\<close> and \<open>a >\<^sub>C\<^sub>F b\<close> for \<open>cmp a b > 0\<close>, the relation
  \<open>=\<^sub>C\<^sub>F\<close> is reflexive, symmetric and transitive and \<open><\<^sub>C\<^sub>F\<close> and \<open>>\<^sub>C\<^sub>F\<close> are transitive on the
  set. The result of a sort is always a permutation of the array; when the comparator is
  consistent for its elements, no element of the result is \<open><\<^sub>C\<^sub>F\<close> an earlier one. For any
  other comparator the order is implementation-defined.
\<close>

definition consistent_comparator :: "('a \<Rightarrow> 'a \<Rightarrow> real) \<Rightarrow> 'a set \<Rightarrow> bool" where
  "consistent_comparator cmp S \<longleftrightarrow>
     (\<forall>a\<in>S. cmp a a = 0) \<and>
     (\<forall>a\<in>S. \<forall>b\<in>S. cmp a b = 0 \<longrightarrow> cmp b a = 0) \<and>
     (\<forall>a\<in>S. \<forall>b\<in>S. \<forall>c\<in>S. cmp a b = 0 \<and> cmp b c = 0 \<longrightarrow> cmp a c = 0) \<and>
     (\<forall>a\<in>S. \<forall>b\<in>S. \<forall>c\<in>S. cmp a b < 0 \<and> cmp b c < 0 \<longrightarrow> cmp a c < 0) \<and>
     (\<forall>a\<in>S. \<forall>b\<in>S. \<forall>c\<in>S. cmp a b > 0 \<and> cmp b c > 0 \<longrightarrow> cmp a c > 0)"

definition sort_contract :: "(('a \<Rightarrow> 'a \<Rightarrow> real) \<Rightarrow> 'a list \<Rightarrow> 'a list) \<Rightarrow> bool" where
  "sort_contract srt \<longleftrightarrow>
     (\<forall>cmp xs. mset (srt cmp xs) = mset xs \<and>
        (consistent_comparator cmp (set xs) \<longrightarrow>
           sorted_wrt (\<lambda>a b. \<not> cmp b a < 0) (srt cmp xs)))"

text \<open>
  \<^verbatim>\<open>detectSprites\<close> with the engine's sort as a parameter: what is proved of it for every
  sort that keeps the contract holds in every engine. \<open>detectSprites\<close> above is the instance
  at the insertion sort.
\<close>

definition detectSpritesWith ::
  "((rect \<Rightarrow> rect \<Rightarrow> real) \<Rightarrow> rect list \<Rightarrow> rect list) \<Rightarrow> image \<Rightarrow> rect list option" where
  "detectSpritesWith srt img =
     map_option (\<lambda>(visited, rects). srt compare_rects rects) (ds_scan img)"

section \<open>FrameCompositor and GridSlicer: \<^verbatim>\<open>sliceFromRects\<close>, \<^verbatim>\<open>sliceSpritesheet\<close>\<close>

text \<open>
  The canvas rasteriser is the browser's. It enters as a parameter: \<open>draw img size clip src
  dst\<close> is the pixel buffer of a cleared canvas of the given size after
  \<^verbatim>\<open>drawImage(img, sx, sy, sw, sh, dx, dy, dw, dh)\<close> under the optional clipping polygon.
  \<^verbatim>\<open>dataUrl\<close> of a frame is the PNG of that buffer; the model keeps the buffer.
\<close>

type_synonym box = "real \<times> real \<times> real \<times> real"

type_synonym renderer =
  "image \<Rightarrow> real \<times> real \<Rightarrow> (real \<times> real) list option \<Rightarrow> box \<Rightarrow> box \<Rightarrow> byte list"

text \<open>\<^verbatim>\<open>ProcessedFrame\<close> of \<^verbatim>\<open>types.ts\<close>.\<close>

record frame =
  frame_id :: nat
  dataUrl :: "byte list"
  frame_width :: real
  frame_height :: real
  sourceRect :: rect

text \<open>\<^verbatim>\<open>getBackgroundColor\<close>: the top-left pixel of the image.\<close>

definition getBackgroundColor :: "image \<Rightarrow> color option" where
  "getBackgroundColor img =
     Some \<lparr>col_r = real_of_int (uint (img_data img ! 0)),
           col_g = real_of_int (uint (img_data img ! 1)),
           col_b = real_of_int (uint (img_data img ! 2))\<rparr>"

text \<open>The block "Determine Background Color if needed", the same in both slicers.\<close>

definition resolve_bgColor :: "image \<Rightarrow> bool \<Rightarrow> color option \<Rightarrow> color option" where
  "resolve_bgColor img removeBackground backgroundColor =
     (if removeBackground then
        (case backgroundColor of Some c \<Rightarrow> Some c | None \<Rightarrow> getBackgroundColor img)
      else None)"

text \<open>Step 4 of both slicers: \<^verbatim>\<open>if (removeBackground && bgColor)\<close>.\<close>

definition remove_if_enabled :: "bool \<Rightarrow> color option \<Rightarrow> byte list \<Rightarrow> byte list" where
  "remove_if_enabled removeBackground bgColor pixels =
     (case bgColor of
        Some c \<Rightarrow> if removeBackground then removeBackgroundFromContext pixels c else pixels
      | None \<Rightarrow> pixels)"

text \<open>"Determine Uniform Size" of \<^verbatim>\<open>sliceFromRects\<close>.\<close>

definition uniform_size :: "rect list \<Rightarrow> (real \<times> real) option \<Rightarrow> real \<times> real" where
  "uniform_size rects customSize =
     (case customSize of
        Some (w, h) \<Rightarrow> (w, h)
      | None \<Rightarrow>
          let (finalWidth, finalHeight) =
                fold (\<lambda>rect (finalWidth, finalHeight).
                        (if rect_width rect > finalWidth then rect_width rect else finalWidth,
                         if rect_height rect > finalHeight then rect_height rect else finalHeight))
                  rects (0, 0)
          in (max 1 finalWidth, max 1 finalHeight))"

text \<open>"Scaling Logic" of \<^verbatim>\<open>sliceFromRects\<close>.\<close>

definition rect_scale :: "(real \<times> real) option \<Rightarrow> real \<Rightarrow> real \<Rightarrow> rect \<Rightarrow> real" where
  "rect_scale customSize finalWidth finalHeight rect =
     (case customSize of
        None \<Rightarrow> 1
      | Some _ \<Rightarrow>
          let scaleX = finalWidth / rect_width rect;
              scaleY = finalHeight / rect_height rect
          in min scaleX scaleY)"

text \<open>The body of \<^verbatim>\<open>rects.forEach((rect, index) => ...)\<close>: one frame.\<close>

definition rect_frame ::
  "renderer \<Rightarrow> image \<Rightarrow> bool \<Rightarrow> color option \<Rightarrow> (real \<times> real) option \<Rightarrow> real \<Rightarrow> real \<Rightarrow>
   nat \<Rightarrow> rect \<Rightarrow> frame" where
  "rect_frame draw img removeBackground bgColor customSize finalWidth finalHeight index rect =
     (let scale = rect_scale customSize finalWidth finalHeight rect;
          drawWidth = rect_width rect * scale;
          drawHeight = rect_height rect * scale;
          destX = (finalWidth - drawWidth) / 2;
          destY = (finalHeight - drawHeight) / 2;
          clip = (case rect_path rect of
                    None \<Rightarrow> None
                  | Some ps \<Rightarrow>
                      if length ps > 0 then
                        Some (map (\<lambda>(px, py).
                                ((px - rect_x rect) * scale + destX, (py - rect_y rect) * scale + destY)) ps)
                      else None);
          pixels = draw img (finalWidth, finalHeight) clip
                     (rect_x rect, rect_y rect, rect_width rect, rect_height rect)
                     (destX, destY, drawWidth, drawHeight)
      in \<lparr>frame_id = index,
          dataUrl = remove_if_enabled removeBackground bgColor pixels,
          frame_width = finalWidth,
          frame_height = finalHeight,
          sourceRect = rect\<rparr>)"

definition sliceFromRects ::
  "renderer \<Rightarrow> image \<Rightarrow> rect list \<Rightarrow> bool \<Rightarrow> color option \<Rightarrow> (real \<times> real) option \<Rightarrow> frame list" where
  "sliceFromRects draw img rects removeBackground backgroundColor customSize =
     (let bgColor = resolve_bgColor img removeBackground backgroundColor;
          (finalWidth, finalHeight) = uniform_size rects customSize
      in fold (\<lambda>(index, rect) frames.
                 frames @ [rect_frame draw img removeBackground bgColor customSize
                             finalWidth finalHeight index rect])
           (zip [0..<length rects] rects) [])"

text \<open>
  The body of the two loops of \<^verbatim>\<open>sliceSpritesheet\<close> at row \<open>r\<close>, column \<open>c\<close>; the state is
  \<^verbatim>\<open>frameId\<close> and \<^verbatim>\<open>frames\<close>.
\<close>

definition grid_cell ::
  "renderer \<Rightarrow> image \<Rightarrow> bool \<Rightarrow> color option \<Rightarrow> (real \<times> real) option \<Rightarrow> real \<Rightarrow> real \<Rightarrow>
   nat \<Rightarrow> nat \<Rightarrow> nat \<Rightarrow> nat \<Rightarrow> nat \<times> frame list \<Rightarrow> nat \<times> frame list" where
  "grid_cell draw img removeBackground bgColor customSize finalWidth finalHeight
     gridFrameWidth gridFrameHeight r c s =
     (case s of (frameId, frames) \<Rightarrow>
      let srcX = real (c * gridFrameWidth);
          srcY = real (r * gridFrameHeight);
          scale = (case customSize of
                     None \<Rightarrow> 1
                   | Some _ \<Rightarrow>
                       let scaleX = finalWidth / real gridFrameWidth;
                           scaleY = finalHeight / real gridFrameHeight
                       in min scaleX scaleY);
          drawWidth = real gridFrameWidth * scale;
          drawHeight = real gridFrameHeight * scale;
          destX = (finalWidth - drawWidth) / 2;
          destY = (finalHeight - drawHeight) / 2;
          pixels = draw img (finalWidth, finalHeight) None
                     (srcX, srcY, real gridFrameWidth, real gridFrameHeight)
                     (destX, destY, drawWidth, drawHeight)
      in (frameId + 1,
          frames @ [\<lparr>frame_id = frameId,
                     dataUrl = remove_if_enabled removeBackground bgColor pixels,
                     frame_width = finalWidth,
                     frame_height = finalHeight,
                     sourceRect = \<lparr>rect_x = srcX, rect_y = srcY,
                                   rect_width = real gridFrameWidth,
                                   rect_height = real gridFrameHeight,
                                   rect_path = None\<rparr>\<rparr>]))"

definition sliceSpritesheet ::
  "renderer \<Rightarrow> image \<Rightarrow> nat \<Rightarrow> nat \<Rightarrow> bool \<Rightarrow> color option \<Rightarrow> (real \<times> real) option \<Rightarrow> frame list" where
  "sliceSpritesheet draw img rows cols removeBackground backgroundColor customSize =
     (let gridFrameWidth = img_width img div cols;
          gridFrameHeight = img_height img div rows
      in if gridFrameWidth = 0 \<or> gridFrameHeight = 0 then []
         else
           let finalWidth = (case customSize of Some (w, h) \<Rightarrow> w | None \<Rightarrow> real gridFrameWidth);
               finalHeight = (case customSize of Some (w, h) \<Rightarrow> h | None \<Rightarrow> real gridFrameHeight);
               bgColor = resolve_bgColor img removeBackground backgroundColor
           in snd (fold (\<lambda>r. fold (grid_cell draw img removeBackground bgColor customSize
                                     finalWidth finalHeight gridFrameWidth gridFrameHeight r)
                               [0..<cols])
                     [0..<rows] (0, [])))"

section \<open>\<^verbatim>\<open>sliceFromRects\<close> in the arithmetic of the machine\<close>

text \<open>
  The scaling of \<^verbatim>\<open>sliceFromRects\<close> divides, multiplies and subtracts JavaScript numbers:
  IEEE doubles, whose operations round, overflow to an infinity and give NaN, and on which a
  quotient by 0 is not 0. What is stated of the scaled drawing is therefore stated of the
  function below: the same body once more, with the type of numbers and the operations the
  source uses on them as parameters. It then holds for the doubles of the engine as for any
  other arithmetic. The definitions of the last section are this function at the reals.
\<close>

record 'n arith =
  ar_lit :: "nat \<Rightarrow> 'n"
  ar_add :: "'n \<Rightarrow> 'n \<Rightarrow> 'n"
  ar_sub :: "'n \<Rightarrow> 'n \<Rightarrow> 'n"
  ar_mul :: "'n \<Rightarrow> 'n \<Rightarrow> 'n"
  ar_div :: "'n \<Rightarrow> 'n \<Rightarrow> 'n"
  ar_min :: "'n \<Rightarrow> 'n \<Rightarrow> 'n"
  ar_max :: "'n \<Rightarrow> 'n \<Rightarrow> 'n"
  ar_gt :: "'n \<Rightarrow> 'n \<Rightarrow> bool"

definition exact :: "real arith" where
  "exact = \<lparr>ar_lit = real, ar_add = (+), ar_sub = (-), ar_mul = (*), ar_div = (/),
            ar_min = min, ar_max = max, ar_gt = (>)\<rparr>"

text \<open>\<^verbatim>\<open>Rect\<close> and \<^verbatim>\<open>ProcessedFrame\<close> over the numbers of the arithmetic.\<close>

record 'n nrect =
  nrect_x :: 'n
  nrect_y :: 'n
  nrect_width :: 'n
  nrect_height :: 'n
  nrect_path :: "('n \<times> 'n) list option"

record 'n nframe =
  nframe_id :: nat
  ndataUrl :: "byte list"
  nframe_width :: 'n
  nframe_height :: 'n
  nsourceRect :: "'n nrect"

type_synonym 'n nbox = "'n \<times> 'n \<times> 'n \<times> 'n"

type_synonym 'n nrenderer =
  "image \<Rightarrow> 'n \<times> 'n \<Rightarrow> ('n \<times> 'n) list option \<Rightarrow> 'n nbox \<Rightarrow> 'n nbox \<Rightarrow> byte list"

text \<open>"Determine Uniform Size".\<close>

definition uniform_size_ar :: "'n arith \<Rightarrow> 'n nrect list \<Rightarrow> ('n \<times> 'n) option \<Rightarrow> 'n \<times> 'n" where
  "uniform_size_ar ar rects customSize =
     (case customSize of
        Some (w, h) \<Rightarrow> (w, h)
      | None \<Rightarrow>
          let (finalWidth, finalHeight) =
                fold (\<lambda>rect (finalWidth, finalHeight).
                        (if ar_gt ar (nrect_width rect) finalWidth then nrect_width rect
                         else finalWidth,
                         if ar_gt ar (nrect_height rect) finalHeight then nrect_height rect
                         else finalHeight))
                  rects (ar_lit ar 0, ar_lit ar 0)
          in (ar_max ar (ar_lit ar 1) finalWidth, ar_max ar (ar_lit ar 1) finalHeight))"

text \<open>"Scaling Logic".\<close>

definition rect_scale_ar :: "'n arith \<Rightarrow> ('n \<times> 'n) option \<Rightarrow> 'n \<Rightarrow> 'n \<Rightarrow> 'n nrect \<Rightarrow> 'n" where
  "rect_scale_ar ar customSize finalWidth finalHeight rect =
     (case customSize of
        None \<Rightarrow> ar_lit ar 1
      | Some _ \<Rightarrow>
          let scaleX = ar_div ar finalWidth (nrect_width rect);
              scaleY = ar_div ar finalHeight (nrect_height rect)
          in ar_min ar scaleX scaleY)"

text \<open>The body of \<^verbatim>\<open>rects.forEach((rect, index) => ...)\<close>: one frame.\<close>

definition rect_frame_ar ::
  "'n arith \<Rightarrow> 'n nrenderer \<Rightarrow> image \<Rightarrow> bool \<Rightarrow> color option \<Rightarrow> ('n \<times> 'n) option \<Rightarrow> 'n \<Rightarrow> 'n \<Rightarrow>
   nat \<Rightarrow> 'n nrect \<Rightarrow> 'n nframe" where
  "rect_frame_ar ar draw img removeBackground bgColor customSize finalWidth finalHeight index rect =
     (let scale = rect_scale_ar ar customSize finalWidth finalHeight rect;
          drawWidth = ar_mul ar (nrect_width rect) scale;
          drawHeight = ar_mul ar (nrect_height rect) scale;
          destX = ar_div ar (ar_sub ar finalWidth drawWidth) (ar_lit ar 2);
          destY = ar_div ar (ar_sub ar finalHeight drawHeight) (ar_lit ar 2);
          clip = (case nrect_path rect of
                    None \<Rightarrow> None
                  | Some ps \<Rightarrow>
                      if length ps > 0 then
                        Some (map (\<lambda>(px, py).
                                (ar_add ar (ar_mul ar (ar_sub ar px (nrect_x rect)) scale) destX,
                                 ar_add ar (ar_mul ar (ar_sub ar py (nrect_y rect)) scale) destY)) ps)
                      else None);
          pixels = draw img (finalWidth, finalHeight) clip
                     (nrect_x rect, nrect_y rect, nrect_width rect, nrect_height rect)
                     (destX, destY, drawWidth, drawHeight)
      in \<lparr>nframe_id = index,
          ndataUrl = remove_if_enabled removeBackground bgColor pixels,
          nframe_width = finalWidth,
          nframe_height = finalHeight,
          nsourceRect = rect\<rparr>)"

definition sliceFromRects_ar ::
  "'n arith \<Rightarrow> 'n nrenderer \<Rightarrow> image \<Rightarrow> 'n nrect list \<Rightarrow> bool \<Rightarrow> color option \<Rightarrow> ('n \<times> 'n) option \<Rightarrow>
   'n nframe list" where
  "sliceFromRects_ar ar draw img rects removeBackground backgroundColor customSize =
     (let bgColor = resolve_bgColor img removeBackground backgroundColor;
          (finalWidth, finalHeight) = uniform_size_ar ar rects customSize
      in fold (\<lambda>(index, rect) frames.
                 frames @ [rect_frame_ar ar draw img removeBackground bgColor customSize
                             finalWidth finalHeight index rect])
           (zip [0..<length rects] rects) [])"

text \<open>The records of the last section as those of this one at the reals.\<close>

definition to_rect :: "real nrect \<Rightarrow> rect" where
  "to_rect r = \<lparr>rect_x = nrect_x r, rect_y = nrect_y r, rect_width = nrect_width r,
               rect_height = nrect_height r, rect_path = nrect_path r\<rparr>"

definition to_frame :: "real nframe \<Rightarrow> frame" where
  "to_frame f = \<lparr>frame_id = nframe_id f, dataUrl = ndataUrl f, frame_width = nframe_width f,
                frame_height = nframe_height f, sourceRect = to_rect (nsourceRect f)\<rparr>"

section \<open>Specification vocabulary\<close>

text \<open>A pixel is a pair \<open>(x, y)\<close>; its bytes sit at \<open>(y * width + x) * 4\<close> of the buffer.\<close>

type_synonym pixel = "nat \<times> nat"

definition in_image :: "image \<Rightarrow> pixel \<Rightarrow> bool" where
  "in_image img p \<longleftrightarrow> fst p < img_width img \<and> snd p < img_height img"

definition pixel_index :: "image \<Rightarrow> pixel \<Rightarrow> nat" where
  "pixel_index img p = snd p * img_width img + fst p"

definition channel :: "image \<Rightarrow> pixel \<Rightarrow> nat \<Rightarrow> byte" where
  "channel img p c = img_data img ! (pixel_index img p * 4 + c)"

text \<open>4-adjacency: one step left, right, up or down.\<close>

definition adjacent4 :: "pixel \<Rightarrow> pixel \<Rightarrow> bool" where
  "adjacent4 p q \<longleftrightarrow>
     (snd p = snd q \<and> (fst q = fst p + 1 \<or> fst p = fst q + 1)) \<or>
     (fst p = fst q \<and> (snd q = snd p + 1 \<or> snd p = snd q + 1))"

text \<open>
  \<open>linked ok\<close> joins two adjacent pixels that both satisfy \<open>ok\<close>; a 4-connected path inside
  \<open>ok\<close> is a chain of such links.
\<close>

definition linked :: "(pixel \<Rightarrow> bool) \<Rightarrow> (pixel \<times> pixel) set" where
  "linked ok = {(p, q). ok p \<and> ok q \<and> adjacent4 p q}"

text \<open>Pixels above the opacity threshold, and the connected components they form.\<close>

definition opaque :: "image \<Rightarrow> pixel \<Rightarrow> bool" where
  "opaque img p \<longleftrightarrow> in_image img p \<and> channel img p 3 > 10"

definition component_of :: "image \<Rightarrow> pixel \<Rightarrow> pixel set" where
  "component_of img p = {q. (p, q) \<in> (linked (opaque img))\<^sup>*}"

definition components :: "image \<Rightarrow> pixel set set" where
  "components img = component_of img ` {p. opaque img p}"

text \<open>The tight bounding box \<open>{minX, minY, maxX - minX + 1, maxY - minY + 1}\<close> of a pixel set.\<close>

definition bounding_rect :: "pixel set \<Rightarrow> rect" where
  "bounding_rect C =
     \<lparr>rect_x = real (Min (fst ` C)),
      rect_y = real (Min (snd ` C)),
      rect_width = real (Max (fst ` C)) - real (Min (fst ` C)) + 1,
      rect_height = real (Max (snd ` C)) - real (Min (snd ` C)) + 1,
      rect_path = None\<rparr>"

text \<open>The \<open>1 \<times> 1\<close> rectangle at \<open>(x, y)\<close>.\<close>

definition pixel_rect :: "real \<Rightarrow> real \<Rightarrow> rect" where
  "pixel_rect x y = \<lparr>rect_x = x, rect_y = y, rect_width = 1, rect_height = 1, rect_path = None\<rparr>"

text \<open>Manhattan RGB distance between two pixels, and the similarity test of the flood selector.\<close>

definition rgb_distance :: "image \<Rightarrow> pixel \<Rightarrow> pixel \<Rightarrow> int" where
  "rgb_distance img s p =
     \<bar>uint (channel img p 0) - uint (channel img s 0)\<bar> +
     \<bar>uint (channel img p 1) - uint (channel img s 1)\<bar> +
     \<bar>uint (channel img p 2) - uint (channel img s 2)\<bar>"

definition similar :: "image \<Rightarrow> pixel \<Rightarrow> real \<Rightarrow> pixel \<Rightarrow> bool" where
  "similar img s tol p \<longleftrightarrow>
     in_image img p \<and> channel img p 3 > 0 \<and> real_of_int (rgb_distance img s p) \<le> tol"

text \<open>
  The pixels reachable from the seed by a 4-connected path on which every pixel, the seed
  included, is similar to the seed.
\<close>

definition similar_region :: "image \<Rightarrow> pixel \<Rightarrow> real \<Rightarrow> pixel set" where
  "similar_region img s tol = {p. similar img s tol s \<and> (s, p) \<in> (linked (similar img s tol))\<^sup>*}"

text \<open>The seed pixel of a click: the coordinates are rounded down.\<close>

definition seed_pixel :: "real \<Rightarrow> real \<Rightarrow> pixel" where
  "seed_pixel startX startY = (nat \<lfloor>startX\<rfloor>, nat \<lfloor>startY\<rfloor>)"

text \<open>
  The complete mask of a set of pixels: one entry for each pixel of the image, 1 at the
  pixels of the set and 0 at every other.
\<close>

definition full_mask :: "image \<Rightarrow> pixel set \<Rightarrow> byte list" where
  "full_mask img R =
     map (\<lambda>i. if (i mod img_width img, i div img_width img) \<in> R then 1 else 0)
       [0..<img_width img * img_height img]"

text \<open>Reading order between two rectangles, as the comparator decides it.\<close>

definition reading_order :: "rect \<Rightarrow> rect \<Rightarrow> bool" where
  "reading_order a b \<longleftrightarrow>
     (if \<bar>rect_y a - rect_y b\<bar> \<le> 10 then rect_x a \<le> rect_x b else rect_y a \<le> rect_y b)"

text \<open>
  Two rectangles count as being on the same row when their \<open>y\<close> differ by at most 10. The
  rectangles of a set fall into rows when that relation is transitive among them.
\<close>

definition same_row :: "rect \<Rightarrow> rect \<Rightarrow> bool" where
  "same_row a b \<longleftrightarrow> \<bar>rect_y a - rect_y b\<bar> \<le> 10"

definition in_rows :: "rect set \<Rightarrow> bool" where
  "in_rows S \<longleftrightarrow> (\<forall>a\<in>S. \<forall>b\<in>S. \<forall>c\<in>S. same_row a b \<and> same_row b c \<longrightarrow> same_row a c)"

text \<open>The rectangles of a \<open>rows \<times> cols\<close> grid in row-major order, as the specification lists them.\<close>

definition grid_rects :: "image \<Rightarrow> nat \<Rightarrow> nat \<Rightarrow> rect list" where
  "grid_rects img rows cols =
     concat (map (\<lambda>r. map (\<lambda>c.
         \<lparr>rect_x = real (c * (img_width img div cols)),
          rect_y = real (r * (img_height img div rows)),
          rect_width = real (img_width img div cols),
          rect_height = real (img_height img div rows),
          rect_path = None\<rparr>) [0..<cols]) [0..<rows])"

text \<open>
  The clipping polygon of a rectangle with a lasso path: each point \<open>p\<close> of the path goes to
  \<open>((p.x - rect.x) * scale + destX, (p.y - rect.y) * scale + destY)\<close>; a rectangle without
  a path, or with an empty one, is not clipped.
\<close>

definition clip_polygon :: "rect \<Rightarrow> real \<Rightarrow> real \<Rightarrow> real \<Rightarrow> (real \<times> real) list option" where
  "clip_polygon r s dx dy =
     (case rect_path r of
        None \<Rightarrow> None
      | Some ps \<Rightarrow>
          if ps = [] then None
          else Some (map (\<lambda>p. ((fst p - rect_x r) * s + dx, (snd p - rect_y r) * s + dy)) ps))"


section \<open>Auxiliary definitions of the proofs\<close>

text \<open>The pixel at an index, the set of pixels a \<^verbatim>\<open>visited\<close> array marks.\<close>

definition pix :: "image \<Rightarrow> nat \<Rightarrow> pixel" where
  "pix img i = (i mod img_width img, i div img_width img)"

definition marked :: "image \<Rightarrow> byte list \<Rightarrow> pixel set" where
  "marked img v = {p. in_image img p \<and> v ! pixel_index img p \<noteq> 0}"

text \<open>The region a flood fill grows from a seed: each step enters an adjacent pixel that passes the test.\<close>

definition grown :: "image \<Rightarrow> (pixel \<Rightarrow> bool) \<Rightarrow> pixel \<Rightarrow> pixel set" where
  "grown img ok s = {p. (s, p) \<in> {(a, b). adjacent4 a b \<and> in_image img b \<and> ok b}\<^sup>*}"

text \<open>What both flood fills do to a neighbour, with the membership test as a parameter.\<close>

definition gen_visit :: "image \<Rightarrow> (pixel \<Rightarrow> bool) \<Rightarrow> int \<times> int \<Rightarrow> nat list \<times> byte list \<Rightarrow> nat list \<times> byte list" where
  "gen_visit img ok n s =
     (case n of (nx, ny) \<Rightarrow> case s of (queue, visited) \<Rightarrow>
        if nx \<ge> 0 \<and> nx < int (img_width img) \<and> ny \<ge> 0 \<and> ny < int (img_height img)
           \<and> visited ! pixel_index img (nat nx, nat ny) = 0 \<and> ok (nat nx, nat ny)
        then (pixel_index img (nat nx, nat ny) # queue, visited[pixel_index img (nat nx, nat ny) := 1])
        else s)"

definition zeros :: "byte list \<Rightarrow> nat" where
  "zeros v = count (mset v) 0"

text \<open>The pixels a list of neighbour candidates offers: inside the image and passing the test.\<close>

definition cand :: "image \<Rightarrow> (pixel \<Rightarrow> bool) \<Rightarrow> (int \<times> int) list \<Rightarrow> pixel set" where
  "cand img ok ns =
     {(nat nx, nat ny) | nx ny.
        (nx, ny) \<in> set ns \<and> nx \<ge> 0 \<and> nx < int (img_width img) \<and> ny \<ge> 0 \<and> ny < int (img_height img)
        \<and> ok (nat nx, nat ny)}"

text \<open>
  The invariant of a flood fill from seed \<open>s\<close>, started with \<open>V0\<close> already marked: \<open>P\<close> are the
  pixels popped so far.
\<close>

definition flood_inv ::
  "image \<Rightarrow> (pixel \<Rightarrow> bool) \<Rightarrow> pixel set \<Rightarrow> pixel \<Rightarrow> pixel set \<Rightarrow> nat list \<times> byte list \<Rightarrow> bool" where
  "flood_inv img ok V0 s P st =
     (case st of (q, v) \<Rightarrow>
        length v = img_width img * img_height img \<and> set v \<subseteq> {0, 1} \<and>
        (\<forall>i\<in>set q. i < img_width img * img_height img) \<and>
        marked img v = V0 \<union> P \<union> pix img ` set q \<and>
        s \<in> P \<union> pix img ` set q \<and>
        P \<union> pix img ` set q \<subseteq> grown img ok s \<and>
        (\<forall>p\<in>P. \<forall>p'. adjacent4 p p' \<and> in_image img p' \<and> ok p' \<longrightarrow> p' \<in> marked img v))"

text \<open>The bounds check of \<^verbatim>\<open>performFloodFill\<close> on the raw click coordinates.\<close>

definition seed_in_bounds :: "image \<Rightarrow> real \<Rightarrow> real \<Rightarrow> bool" where
  "seed_in_bounds img startX startY \<longleftrightarrow>
     0 \<le> startX \<and> startX < real (img_width img) \<and> 0 \<le> startY \<and> startY < real (img_height img)"

text \<open>The membership test of \<^verbatim>\<open>performFloodFill\<close> for a neighbour, against the seed \<open>s\<close>.\<close>

definition ff_ok :: "image \<Rightarrow> pixel \<Rightarrow> real \<Rightarrow> pixel \<Rightarrow> bool" where
  "ff_ok img s tol p \<longleftrightarrow> channel img p 3 > 0 \<and> real_of_int (rgb_distance img s p) \<le> tol"

definition seed_color :: "image \<Rightarrow> pixel \<Rightarrow> byte \<times> byte \<times> byte" where
  "seed_color img s = (channel img s 0, channel img s 1, channel img s 2)"

definition ff_inv :: "image \<Rightarrow> pixel \<Rightarrow> real \<Rightarrow> ff_state \<Rightarrow> bool" where
  "ff_inv img s tol st =
     (case st of (q, v, m) \<Rightarrow> m = v \<and> (\<exists>P. flood_inv img (ff_ok img s tol) {} s P (q, v)))"

definition ff_measure :: "ff_state \<Rightarrow> nat" where
  "ff_measure st = (case st of (q, v, m) \<Rightarrow> 2 * zeros v + length q)"

text \<open>
  A tolerance that is any number, as a real one. The Manhattan distance of two colours is from
  0 to 765: it is at most plus infinity as it is at most 765, and it is at most NaN or minus
  infinity as it is at most - 1, that is never.
\<close>

definition tol_real :: "jsnum \<Rightarrow> real" where
  "tol_real tol = (case tol of Fin t \<Rightarrow> t | PosInf \<Rightarrow> 765 | NegInf \<Rightarrow> - 1 | NaN \<Rightarrow> - 1)"

text \<open>A state of the flood fill over the reals as a state of the flood fill over all numbers.\<close>

definition ffj_of :: "ff_state \<Rightarrow> ffj_state" where
  "ffj_of st = (case st of (q, v, m) \<Rightarrow> (map (\<lambda>i. Fin (real i)) q, v, m))"

text \<open>The membership test of \<^verbatim>\<open>detectSprites\<close>, the invariants of its flood fill and of its scan.\<close>

definition ds_ok :: "image \<Rightarrow> pixel \<Rightarrow> bool" where
  "ds_ok img p \<longleftrightarrow> channel img p 3 > alphaThreshold"

definition ds_inv :: "image \<Rightarrow> pixel set \<Rightarrow> pixel \<Rightarrow> ds_state \<Rightarrow> bool" where
  "ds_inv img V0 s st =
     (case st of (q, v, minX, maxX, minY, maxY) \<Rightarrow>
        \<exists>P. flood_inv img (ds_ok img) V0 s P (q, v) \<and>
            minX = Min (fst ` insert s P) \<and> maxX = Max (fst ` insert s P) \<and>
            minY = Min (snd ` insert s P) \<and> maxY = Max (snd ` insert s P))"

definition ds_measure :: "ds_state \<Rightarrow> nat" where
  "ds_measure st = (case st of (q, v, minX, maxX, minY, maxY) \<Rightarrow> 2 * zeros v + length q)"

definition scan_inv :: "image \<Rightarrow> nat \<Rightarrow> byte list \<times> rect list \<Rightarrow> bool" where
  "scan_inv img n st =
     (case st of (v, rects) \<Rightarrow>
        length v = img_width img * img_height img \<and> set v \<subseteq> {0, 1} \<and>
        (\<exists>S. S \<subseteq> components img \<and> marked img v = \<Union>S \<and>
             mset rects = image_mset bounding_rect (mset_set S)) \<and>
        (\<forall>p. opaque img p \<and> pixel_index img p < n \<longrightarrow> p \<in> marked img v))"

section \<open>Concrete inputs\<close>

definition px_example :: "byte list" where
  "px_example = [5, 0, 0, 255, 200, 0, 0, 255, 0, 0, 0, 0]"

definition black :: color where
  "black = \<lparr>col_r = 0, col_g = 0, col_b = 0\<rparr>"

definition two_pixels :: image where
  "two_pixels = \<lparr>img_width = 2, img_height = 1, img_data = [1, 2, 3, 255, 4, 5, 6, 255]\<rparr>"

definition one_pixel :: image where
  "one_pixel = \<lparr>img_width = 1, img_height = 1, img_data = [7, 7, 7, 255]\<rparr>"

definition red_green :: image where
  "red_green = \<lparr>img_width = 2, img_height = 1, img_data = [200, 0, 0, 255, 0, 200, 0, 255]\<rparr>"

definition sheet4 :: image where
  "sheet4 = \<lparr>img_width = 4, img_height = 4, img_data = replicate 64 255\<rparr>"

definition wide_rect :: rect where
  "wide_rect = \<lparr>rect_x = 0, rect_y = 0, rect_width = 4, rect_height = 2, rect_path = None\<rparr>"

text \<open>
  Three single opaque pixels on a \<open>3 \<times> 12\<close> image, at \<open>(2, 0)\<close>, \<open>(1, 6)\<close> and \<open>(0, 11)\<close>: each is
  within 10 rows of the next, the first and the last are 11 rows apart.
\<close>

definition staircase :: image where
  "staircase = \<lparr>img_width = 3, img_height = 12,
                 img_data = (replicate 144 0)[11 := 255, 79 := 255, 135 := 255]\<rparr>"

text \<open>
  Two single opaque pixels on a \<open>3 \<times> 2\<close> image, at \<open>(2, 0)\<close> and \<open>(0, 1)\<close>: the scan meets
  the right one first.
\<close>

definition two_blobs :: image where
  "two_blobs = \<lparr>img_width = 3, img_height = 2,
                 img_data = (replicate 24 0)[11 := 255, 15 := 255]\<rparr>"


section \<open>Matte: proofs\<close>

lemma length_key_pixel [simp]: "length (key_pixel bgColor i data) = length data"
  by (simp add: key_pixel_def Let_def)

lemma key_pixel_nth:
  "j < length data \<Longrightarrow>
   key_pixel bgColor (4 * k) data ! j =
     (if j = 4 * k + 3 \<and> keyed bgColor data k then 0 else data ! j)"
  by (auto simp: key_pixel_def keyed_def tolerance_def Let_def nth_list_update)

lemma key_fold_length [simp]:
  "length (fold (key_pixel bgColor) (map (\<lambda>k. 4 * k) [0..<n]) data) = length data"
  by (induction n) simp_all

lemma key_fold_nth:
  "j < length data \<Longrightarrow>
   fold (key_pixel bgColor) (map (\<lambda>k. 4 * k) [0..<n]) data ! j =
     (if j mod 4 = 3 \<and> j div 4 < n \<and> keyed bgColor data (j div 4) then 0 else data ! j)"
proof (induction n arbitrary: j)
  case 0
  then show ?case by simp
next
  case (Suc n)
  let ?d = "fold (key_pixel bgColor) (map (\<lambda>k. 4 * k) [0..<n]) data"
  have same: "?d ! i = data ! i" if "i < length data" "i div 4 = n" for i
    using Suc.IH [OF that(1)] that(2) by simp
  have k: "keyed bgColor ?d n = keyed bgColor data n" if "4 * n + 3 < length data"
    using that by (simp add: keyed_def same)
  have step: "fold (key_pixel bgColor) (map (\<lambda>k. 4 * k) [0..<Suc n]) data = key_pixel bgColor (4 * n) ?d"
    by simp
  have "j = 4 * n + 3 \<longleftrightarrow> j mod 4 = 3 \<and> j div 4 = n" by presburger
  then show ?case
    using Suc.prems Suc.IH [OF Suc.prems] k
    unfolding step by (auto simp: key_pixel_nth less_Suc_eq)
qed

lemma putImageData_length [simp]: "length (putImageData data) = length data"
  by (simp add: putImageData_def)

lemma putImageData_nth:
  "j < length data \<Longrightarrow>
   putImageData data ! j =
     (if 4 * (j div 4) + 3 < length data \<and> data ! (4 * (j div 4) + 3) = 0 then 0 else data ! j)"
  by (simp add: putImageData_def)

lemma canvas_read_nth:
  assumes "canvas_read data" and "4 * (j div 4) + 3 < length data"
    and "data ! (4 * (j div 4) + 3) = 0"
  shows "data ! j = 0"
proof -
  have j: "j < length data" using assms(2) by presburger
  have "putImageData data ! j = data ! j" using assms(1) by (simp add: canvas_read_def)
  then show ?thesis using assms(2,3) by (simp add: putImageData_nth [OF j])
qed

lemma removeBackground_length [simp]:
  "length (removeBackgroundFromContext data bgColor) = length data"
  by (simp add: removeBackgroundFromContext_def)

lemma removeBackground_nth:
  assumes j: "j < length data"
  shows "removeBackgroundFromContext data bgColor ! j =
     (if 4 * (j div 4) + 3 < length data \<and>
         (data ! (4 * (j div 4) + 3) = 0 \<or> keyed bgColor data (j div 4)) then 0
      else data ! j)"
proof -
  let ?K = "fold (key_pixel bgColor) (map (\<lambda>k. 4 * k) [0..<(length data + 3) div 4]) data"
  have n: "j div 4 < (length data + 3) div 4" using j by presburger
  have Kj: "?K ! j = (if j mod 4 = 3 \<and> keyed bgColor data (j div 4) then 0 else data ! j)"
    using n by (simp add: key_fold_nth [OF j])
  have Ka: "?K ! (4 * (j div 4) + 3) =
      (if keyed bgColor data (j div 4) then 0 else data ! (4 * (j div 4) + 3))"
    if a: "4 * (j div 4) + 3 < length data"
  proof -
    have "(4 * (j div 4) + 3) mod 4 = 3" "(4 * (j div 4) + 3) div 4 = j div 4" by presburger+
    then show ?thesis using n by (simp add: key_fold_nth [OF a])
  qed
  have "removeBackgroundFromContext data bgColor ! j =
      (if 4 * (j div 4) + 3 < length data \<and> ?K ! (4 * (j div 4) + 3) = 0 then 0 else ?K ! j)"
    unfolding removeBackgroundFromContext_def using j by (simp add: putImageData_nth)
  also have "\<dots> = (if 4 * (j div 4) + 3 < length data \<and>
         (data ! (4 * (j div 4) + 3) = 0 \<or> keyed bgColor data (j div 4)) then 0
      else data ! j)"
  proof -
    have "j mod 4 = 3 \<Longrightarrow> 4 * (j div 4) + 3 < length data" using j by presburger
    then show ?thesis using Ka Kj by auto
  qed
  finally show ?thesis .
qed

lemma removeBackground_pixel:
  assumes k: "4 * k + 3 < length data" and i: "i < 4"
  shows "removeBackgroundFromContext data bgColor ! (4 * k + i) =
     (if data ! (4 * k + 3) = 0 \<or> keyed bgColor data k then 0 else data ! (4 * k + i))"
proof -
  have d: "(4 * k + i) div 4 = k" using i by presburger
  have l: "4 * k + i < length data" using k i by simp
  show ?thesis using k by (simp add: removeBackground_nth [OF l] d)
qed

lemma keyed_after:
  assumes "4 * k + 3 < length data"
  shows "\<not> keyed bgColor (removeBackgroundFromContext data bgColor) k"
proof
  let ?d = "removeBackgroundFromContext data bgColor"
  assume a: "keyed bgColor ?d k"
  have p: "?d ! (4 * k + i) =
      (if data ! (4 * k + 3) = 0 \<or> keyed bgColor data k then 0 else data ! (4 * k + i))"
    if "i < 4" for i
    using removeBackground_pixel [OF assms that] .
  have nz: "?d ! (4 * k + 3) \<noteq> 0" using a by (simp add: keyed_def)
  then have nk: "\<not> (data ! (4 * k + 3) = 0 \<or> keyed bgColor data k)"
    using p [of 3] by auto
  have e: "?d ! (4 * k + i) = data ! (4 * k + i)" if "i < 4" for i
    using p [OF that] nk by simp
  have "keyed bgColor data k"
    using a e [of 0] e [of 1] e [of 2] e [of 3] by (simp add: keyed_def)
  then show False using nk by simp
qed

lemma removeBackground_idem:
  "removeBackgroundFromContext (removeBackgroundFromContext data bgColor) bgColor =
   removeBackgroundFromContext data bgColor"
proof (rule nth_equalityI)
  let ?d = "removeBackgroundFromContext data bgColor"
  fix j assume "j < length (removeBackgroundFromContext ?d bgColor)"
  then have j: "j < length data" by simp
  have jd: "j < length ?d" using j by simp
  show "removeBackgroundFromContext ?d bgColor ! j = ?d ! j"
  proof (cases "4 * (j div 4) + 3 < length data")
    case True
    have nk: "\<not> keyed bgColor ?d (j div 4)" using keyed_after [OF True] .
    have a: "?d ! (4 * (j div 4) + 3) = 0 \<Longrightarrow> ?d ! j = 0"
      using True by (auto simp: removeBackground_nth [OF j] removeBackground_nth [OF True]
          split: if_splits)
    show ?thesis
      using True nk a by (simp add: removeBackground_nth [OF jd])
  next
    case False
    then show ?thesis by (simp add: removeBackground_nth [OF jd])
  qed
qed simp

text \<open>
  Claim C8, as the code has it. \<^verbatim>\<open>removeBackgroundFromContext\<close> takes no tolerance: it is
  the constant 30. For every buffer read from a canvas and every background colour, the canvas
  keeps its size, a pixel whose alpha is 0 is left entirely unchanged, all four bytes of it,
  and a pixel whose alpha is not 0 has alpha 0 afterwards exactly when its Manhattan RGB
  distance to the background colour is at most 30. Applying the key twice is the same as
  applying it once.
\<close>

theorem chromaKey_fixed_tolerance:
  assumes "canvas_read data"
  shows "length (removeBackgroundFromContext data bgColor) = length data \<and>
   (\<forall>k. 4 * k + 3 < length data \<longrightarrow>
      (let out = removeBackgroundFromContext data bgColor;
           d = color_diff (data ! (4 * k)) (data ! (4 * k + 1)) (data ! (4 * k + 2)) bgColor in
       (data ! (4 * k + 3) = 0 \<longrightarrow>
          out ! (4 * k) = data ! (4 * k) \<and> out ! (4 * k + 1) = data ! (4 * k + 1) \<and>
          out ! (4 * k + 2) = data ! (4 * k + 2) \<and> out ! (4 * k + 3) = data ! (4 * k + 3)) \<and>
       (data ! (4 * k + 3) \<noteq> 0 \<longrightarrow> (out ! (4 * k + 3) = 0 \<longleftrightarrow> d \<le> 30)))) \<and>
   removeBackgroundFromContext (removeBackgroundFromContext data bgColor) bgColor =
     removeBackgroundFromContext data bgColor"
proof -
  let ?out = "removeBackgroundFromContext data bgColor"
  have px: "(data ! (4 * k + 3) = 0 \<longrightarrow>
          ?out ! (4 * k) = data ! (4 * k) \<and> ?out ! (4 * k + 1) = data ! (4 * k + 1) \<and>
          ?out ! (4 * k + 2) = data ! (4 * k + 2) \<and> ?out ! (4 * k + 3) = data ! (4 * k + 3)) \<and>
       (data ! (4 * k + 3) \<noteq> 0 \<longrightarrow>
          (?out ! (4 * k + 3) = 0 \<longleftrightarrow>
           color_diff (data ! (4 * k)) (data ! (4 * k + 1)) (data ! (4 * k + 2)) bgColor \<le> 30))"
    if k: "4 * k + 3 < length data" for k
  proof -
    have p: "?out ! (4 * k + i) =
        (if data ! (4 * k + 3) = 0 \<or> keyed bgColor data k then 0 else data ! (4 * k + i))"
      if "i < 4" for i
      using removeBackground_pixel [OF k that] .
    have z: "data ! (4 * k + i) = 0" if "data ! (4 * k + 3) = 0" "i < 4" for i
    proof -
      have "(4 * k + i) div 4 = k" using that(2) by presburger
      then show ?thesis using canvas_read_nth [OF assms, of "4 * k + i"] k that(1) by simp
    qed
    show ?thesis
      using p [of 0] p [of 1] p [of 2] p [of 3] z [of 0] z [of 1] z [of 2]
      by (auto simp: keyed_def)
  qed
  then have "\<forall>k. 4 * k + 3 < length data \<longrightarrow>
      (let out = removeBackgroundFromContext data bgColor;
           d = color_diff (data ! (4 * k)) (data ! (4 * k + 1)) (data ! (4 * k + 2)) bgColor in
       (data ! (4 * k + 3) = 0 \<longrightarrow>
          out ! (4 * k) = data ! (4 * k) \<and> out ! (4 * k + 1) = data ! (4 * k + 1) \<and>
          out ! (4 * k + 2) = data ! (4 * k + 2) \<and> out ! (4 * k + 3) = data ! (4 * k + 3)) \<and>
       (data ! (4 * k + 3) \<noteq> 0 \<longrightarrow> (out ! (4 * k + 3) = 0 \<longleftrightarrow> d \<le> 30)))"
    unfolding Let_def by blast
  then show ?thesis
    using removeBackground_length removeBackground_idem by blast
qed

theorem chromaKey_fixed_tolerance_witness:
  "canvas_read px_example \<and> 4 * 1 + 3 < length px_example \<and> px_example ! (4 * 1 + 3) \<noteq> 0 \<and>
   \<not> color_diff (px_example ! (4 * 1)) (px_example ! (4 * 1 + 1)) (px_example ! (4 * 1 + 2)) black \<le> 30 \<and>
   removeBackgroundFromContext px_example black ! (4 * 1 + 3) \<noteq> 0"
proof -
  have c: "canvas_read px_example"
    by (simp add: canvas_read_def putImageData_def px_example_def upt_rec)
  from chromaKey_fixed_tolerance [OF c, of black, THEN conjunct2, THEN conjunct1, THEN spec, of 1] c
  show ?thesis
    by (simp add: px_example_def black_def color_diff_def Let_def)
qed

text \<open>
  Claim C8 as stated, for every tolerance, does not hold: with tolerance 0 a pixel at distance
  5 from the background colour would keep its alpha, and the code clears it.
\<close>

theorem chromaKey_tolerance_counterexample:
  "\<not> (removeBackgroundFromContext [5, 0, 0, 255] black ! 3 = 0 \<longleftrightarrow>
        color_diff 5 0 0 black \<le> 0)"
  by (simp add: removeBackgroundFromContext_def putImageData_def key_pixel_def tolerance_def
      color_diff_def black_def upt_rec)

lemma length_mask_pixel [simp]: "length (mask_pixel msk i data) = length data"
  by (simp add: mask_pixel_def)

lemma mask_pixel_nth:
  "j < length data \<Longrightarrow>
   mask_pixel msk i data ! j = (if j = i * 4 + 3 \<and> msk ! i = 1 then 0 else data ! j)"
  by (simp add: mask_pixel_def nth_list_update)

lemma mask_fold_length [simp]: "length (fold (mask_pixel msk) [0..<n] data) = length data"
  by (induction n) simp_all

lemma mask_fold_nth:
  "j < length data \<Longrightarrow>
   fold (mask_pixel msk) [0..<n] data ! j =
     (if j mod 4 = 3 \<and> j div 4 < n \<and> msk ! (j div 4) = 1 then 0 else data ! j)"
proof (induction n)
  case 0
  then show ?case by simp
next
  case (Suc n)
  have "j = n * 4 + 3 \<longleftrightarrow> j mod 4 = 3 \<and> j div 4 = n" by presburger
  then show ?case
    using Suc by (auto simp: mask_pixel_nth less_Suc_eq)
qed

lemma applyTransparency_nth:
  assumes wf: "wf_image img" and c: "canvas_read (img_data img)" and j: "j < length (img_data img)"
  shows "img_data (applyTransparency img msk) ! j =
     (if j div 4 < length msk \<and> msk ! (j div 4) = 1 then 0 else img_data img ! j)"
proof -
  let ?M = "fold (mask_pixel msk) [0..<length msk] (img_data img)"
  have a: "4 * (j div 4) + 3 < length (img_data img)"
    using wf j unfolding wf_image_def by presburger
  have m: "(4 * (j div 4) + 3) mod 4 = 3" "(4 * (j div 4) + 3) div 4 = j div 4" by presburger+
  have Ma: "?M ! (4 * (j div 4) + 3) =
      (if j div 4 < length msk \<and> msk ! (j div 4) = 1 then 0 else img_data img ! (4 * (j div 4) + 3))"
    using m by (simp add: mask_fold_nth [OF a])
  have Mj: "?M ! j =
      (if j mod 4 = 3 \<and> j div 4 < length msk \<and> msk ! (j div 4) = 1 then 0 else img_data img ! j)"
    by (simp add: mask_fold_nth [OF j])
  have "img_data (applyTransparency img msk) ! j =
      (if ?M ! (4 * (j div 4) + 3) = 0 then 0 else ?M ! j)"
    using a j by (simp add: applyTransparency_def putImageData_nth)
  also have "\<dots> = (if j div 4 < length msk \<and> msk ! (j div 4) = 1 then 0 else img_data img ! j)"
    using Ma Mj canvas_read_nth [OF c a] by auto
  finally show ?thesis .
qed

text \<open>
  Claim C9, as the code has it. \<^verbatim>\<open>applyTransparency\<close> compares no lengths and does not
  fail on a mask of another size: for every image read from a canvas and every mask, of any
  length, it returns an image of the same width and height, in which pixel \<open>i\<close> is fully
  transparent, all four bytes 0, when \<open>i\<close> is below the length of the mask and
  \<open>mask[i] = 1\<close>, and is the pixel of the input otherwise.
\<close>

theorem applyTransparency_any_mask:
  assumes "wf_image img" and "canvas_read (img_data img)"
  shows "img_width (applyTransparency img msk) = img_width img \<and>
    img_height (applyTransparency img msk) = img_height img \<and>
    length (img_data (applyTransparency img msk)) = length (img_data img) \<and>
    (\<forall>j < length (img_data img).
       img_data (applyTransparency img msk) ! j =
         (if j div 4 < length msk \<and> msk ! (j div 4) = 1 then 0 else img_data img ! j))"
  using applyTransparency_nth [OF assms] by (simp add: applyTransparency_def)

theorem applyTransparency_any_mask_witness:
  "wf_image two_pixels \<and> canvas_read (img_data two_pixels) \<and>
   length [1 :: byte] \<noteq> img_width two_pixels * img_height two_pixels \<and>
   (7 :: nat) < length (img_data two_pixels) \<and>
   img_data (applyTransparency two_pixels [1]) ! 0 = 0 \<and>
   img_data (applyTransparency two_pixels [1]) ! 3 = 0 \<and>
   img_data (applyTransparency two_pixels [1]) ! 7 = 255"
proof -
  have h: "wf_image two_pixels" by (simp add: wf_image_def two_pixels_def)
  have c: "canvas_read (img_data two_pixels)"
    by (simp add: canvas_read_def putImageData_def two_pixels_def upt_rec)
  have r: "\<forall>j < length (img_data two_pixels).
       img_data (applyTransparency two_pixels [1]) ! j =
         (if j div 4 < length [1 :: byte] \<and> [1 :: byte] ! (j div 4) = 1 then 0
          else img_data two_pixels ! j)"
    using applyTransparency_any_mask [OF h c, of "[1]"] by blast
  from r [THEN spec, of 0] r [THEN spec, of 3] r [THEN spec, of 7] h c show ?thesis
    by (simp add: two_pixels_def)
qed

text \<open>
  Claim C9 as stated does not hold: a mask of length 1 against an image of two pixels is
  applied without any error, and the result is the image with its first pixel cleared.
\<close>

theorem applyTransparency_mismatch_counterexample:
  "length [1 :: byte] \<noteq> img_width two_pixels * img_height two_pixels \<and>
   applyTransparency two_pixels [1] =
     \<lparr>img_width = 2, img_height = 1, img_data = [0, 0, 0, 0, 4, 5, 6, 255]\<rparr>"
  by (simp add: applyTransparency_def putImageData_def mask_pixel_def two_pixels_def upt_rec)

section \<open>Flood fill: proofs\<close>

subsection \<open>Indices and pixels\<close>

lemma pixel_index_lt:
  "in_image img p \<Longrightarrow> pixel_index img p < img_width img * img_height img"
proof -
  assume a: "in_image img p"
  then have "snd p * img_width img + fst p < Suc (snd p) * img_width img"
    by (simp add: in_image_def)
  also have "\<dots> \<le> img_height img * img_width img"
    using a by (intro mult_le_mono1) (simp add: in_image_def)
  finally show ?thesis by (simp add: pixel_index_def mult.commute)
qed

lemma pix_pixel_index: "in_image img p \<Longrightarrow> pix img (pixel_index img p) = p"
  by (cases p) (simp add: pix_def pixel_index_def in_image_def)

lemma pixel_index_pix: "pixel_index img (pix img i) = i"
  by (simp add: pix_def pixel_index_def)

lemma in_image_pix: "i < img_width img * img_height img \<Longrightarrow> in_image img (pix img i)"
proof -
  assume a: "i < img_width img * img_height img"
  then have "0 < img_width img" by (cases "img_width img") simp_all
  then show ?thesis
    using a by (simp add: pix_def in_image_def less_mult_imp_div_less mult.commute)
qed

lemma pixel_index_inj:
  "in_image img p \<Longrightarrow> in_image img q \<Longrightarrow> pixel_index img p = pixel_index img q \<Longrightarrow> p = q"
  by (metis pix_pixel_index)

lemma finite_in_image: "finite {p. in_image img p}"
proof -
  have "{p. in_image img p} \<subseteq> {..<img_width img} \<times> {..<img_height img}"
    by (auto simp: in_image_def)
  then show ?thesis by (rule finite_subset) simp
qed

lemma marked_in_image: "p \<in> marked img v \<Longrightarrow> in_image img p"
  by (simp add: marked_def)

lemma marked_update:
  assumes "length v = img_width img * img_height img" "in_image img p"
  shows "marked img (v[pixel_index img p := 1]) = insert p (marked img v)"
proof -
  have "pixel_index img p < length v" using assms pixel_index_lt by simp
  then show ?thesis
    using assms(2) by (auto simp: marked_def nth_list_update dest: pixel_index_inj)
qed

lemma zeros_update:
  assumes "i < length v" "v ! i = 0"
  shows "Suc (zeros (v[i := 1])) = zeros v"
proof -
  have "mset (v[i := 1]) = add_mset 1 (mset v - {#0#})"
    using assms by (simp add: mset_update)
  moreover have "0 \<in># mset v" using assms by (metis nth_mem_mset)
  ultimately show ?thesis by (simp add: zeros_def)
qed

subsection \<open>One neighbour, four neighbours\<close>

lemma cand_Nil [simp]: "cand img ok [] = {}"
  by (simp add: cand_def)

lemma cand_Cons:
  "cand img ok (n # ns) = cand img ok [n] \<union> cand img ok ns"
  by (auto simp: cand_def)

lemma cand_in_image: "p \<in> cand img ok ns \<Longrightarrow> in_image img p"
  by (auto simp: cand_def in_image_def)

lemma gen_visit_props:
  assumes len: "length v = img_width img * img_height img"
    and res: "gen_visit img ok n (q, v) = (q', v')"
  shows "length v' = length v"
    and "marked img v' = marked img v \<union> cand img ok [n]"
    and "set q' = set q \<union> pixel_index img ` (cand img ok [n] - marked img v)"
    and "2 * zeros v' + length q' \<le> 2 * zeros v + length q"
    and "set v \<subseteq> {0, 1} \<Longrightarrow> set v' \<subseteq> {0, 1}"
proof -
  obtain nx ny where n: "n = (nx, ny)" by (cases n)
  let ?valid = "nx \<ge> 0 \<and> nx < int (img_width img) \<and> ny \<ge> 0 \<and> ny < int (img_height img)"
  let ?p = "(nat nx, nat ny)"
  have c: "cand img ok [n] = (if ?valid \<and> ok ?p then {?p} else {})"
    by (auto simp: cand_def n)
  show "length v' = length v"
    using res by (auto simp: gen_visit_def n split: if_splits)
  show "set v \<subseteq> {0, 1} \<Longrightarrow> set v' \<subseteq> {0, 1}"
    using res by (auto simp: gen_visit_def n split: if_splits dest!: set_update_subset_insert [THEN subsetD])
  have "marked img v' = marked img v \<union> cand img ok [n]
    \<and> set q' = set q \<union> pixel_index img ` (cand img ok [n] - marked img v)
    \<and> 2 * zeros v' + length q' \<le> 2 * zeros v + length q"
  proof -
    consider (push) "?valid" "ok ?p" "v ! pixel_index img ?p = 0"
      | (seen) "?valid" "ok ?p" "v ! pixel_index img ?p \<noteq> 0"
      | (skip) "\<not> (?valid \<and> ok ?p)" by blast
    then show ?thesis
    proof cases
      case push
      then have im: "in_image img ?p" by (simp add: in_image_def nat_less_iff)
      have r: "q' = pixel_index img ?p # q" "v' = v[pixel_index img ?p := 1]"
        using res push by (auto simp: gen_visit_def n)
      have nm: "?p \<notin> marked img v" using push by (simp add: marked_def)
      have "Suc (zeros v') = zeros v"
        unfolding r using pixel_index_lt [OF im] push len by (intro zeros_update) simp_all
      then show ?thesis
        using push nm by (auto simp: r c marked_update [OF len im])
    next
      case seen
      then have im: "in_image img ?p" by (simp add: in_image_def nat_less_iff)
      have r: "q' = q" "v' = v" using res seen by (auto simp: gen_visit_def n)
      have m: "?p \<in> marked img v" using seen im by (simp add: marked_def)
      show ?thesis using seen m by (auto simp: r c)
    next
      case skip
      then have r: "q' = q" "v' = v" using res by (auto simp: gen_visit_def n split: if_splits)
      show ?thesis using skip by (auto simp: r c)
    qed
  qed
  then show "marked img v' = marked img v \<union> cand img ok [n]"
    and "set q' = set q \<union> pixel_index img ` (cand img ok [n] - marked img v)"
    and "2 * zeros v' + length q' \<le> 2 * zeros v + length q"
    by simp_all
qed

lemma fold_gen_visit:
  assumes "length v = img_width img * img_height img"
    and "fold (gen_visit img ok) ns (q, v) = (q', v')"
  shows "length v' = length v
    \<and> marked img v' = marked img v \<union> cand img ok ns
    \<and> set q' = set q \<union> pixel_index img ` (cand img ok ns - marked img v)
    \<and> 2 * zeros v' + length q' \<le> 2 * zeros v + length q
    \<and> (set v \<subseteq> {0, 1} \<longrightarrow> set v' \<subseteq> {0, 1})"
  using assms
proof (induction ns arbitrary: q v)
  case Nil
  then show ?case by simp
next
  case (Cons n ns)
  obtain q1 v1 where s1: "gen_visit img ok n (q, v) = (q1, v1)" by (cases "gen_visit img ok n (q, v)")
  note p = gen_visit_props [OF Cons.prems(1) s1]
  have len1: "length v1 = img_width img * img_height img" using p(1) Cons.prems(1) by simp
  have "fold (gen_visit img ok) ns (q1, v1) = (q', v')" using Cons.prems(2) s1 by simp
  note ih = Cons.IH [OF len1 this]
  have "set q' = set q \<union> pixel_index img ` (cand img ok (n # ns) - marked img v)"
    using ih p(2,3) cand_Cons [of img ok n ns] by auto
  moreover have "marked img v' = marked img v \<union> cand img ok (n # ns)"
    using ih p(2) cand_Cons [of img ok n ns] by auto
  ultimately show ?case using ih p by auto
qed

lemma cand_neighbors:
  "cand img ok (neighbors x y) = {p. adjacent4 (x, y) p \<and> in_image img p \<and> ok p}"
proof (intro set_eqI iffI)
  fix p assume "p \<in> cand img ok (neighbors x y)"
  then obtain nx ny where p: "p = (nat nx, nat ny)" and m: "(nx, ny) \<in> set (neighbors x y)"
    and v: "nx \<ge> 0" "nx < int (img_width img)" "ny \<ge> 0" "ny < int (img_height img)"
    and ok: "ok (nat nx, nat ny)"
    by (auto simp: cand_def)
  have "adjacent4 (x, y) (nat nx, nat ny)"
    using m v by (auto simp: neighbors_def adjacent4_def)
  moreover have "in_image img (nat nx, nat ny)"
    using v by (simp add: in_image_def nat_less_iff)
  ultimately show "p \<in> {p. adjacent4 (x, y) p \<and> in_image img p \<and> ok p}"
    using ok p by simp
next
  fix p assume "p \<in> {p. adjacent4 (x, y) p \<and> in_image img p \<and> ok p}"
  then have a: "adjacent4 (x, y) p" and i: "in_image img p" and ok: "ok p" by simp_all
  obtain px py where p: "p = (px, py)" by (cases p)
  have "(int px, int py) \<in> set (neighbors x y)"
    using a by (auto simp: neighbors_def adjacent4_def p)
  moreover have "int px \<ge> 0" "int px < int (img_width img)" "int py \<ge> 0" "int py < int (img_height img)"
    using i by (simp_all add: in_image_def p)
  moreover have "ok (nat (int px), nat (int py))" using ok p by simp
  ultimately have "(nat (int px), nat (int py)) \<in> cand img ok (neighbors x y)"
    unfolding cand_def by blast
  then show "p \<in> cand img ok (neighbors x y)" by (simp add: p)
qed

lemma grown_seed: "s \<in> grown img ok s"
  by (simp add: grown_def)

lemma grown_step:
  "p \<in> grown img ok s \<Longrightarrow> adjacent4 p p' \<Longrightarrow> in_image img p' \<Longrightarrow> ok p' \<Longrightarrow> p' \<in> grown img ok s"
  unfolding grown_def by (auto intro: rtrancl_into_rtrancl)

lemma grown_closed:
  assumes "s \<in> P" and "\<And>p p'. p \<in> P \<Longrightarrow> adjacent4 p p' \<Longrightarrow> in_image img p' \<Longrightarrow> ok p' \<Longrightarrow> p' \<in> P"
  shows "grown img ok s \<subseteq> P"
proof
  fix p assume "p \<in> grown img ok s"
  then have "(s, p) \<in> {(a, b). adjacent4 a b \<and> in_image img b \<and> ok b}\<^sup>*" by (simp add: grown_def)
  then show "p \<in> P"
    by (induction rule: rtrancl_induct) (use assms in auto)
qed

lemma flood_inv_step:
  assumes inv: "flood_inv img ok V0 s P (c # q, v)"
    and res: "fold (gen_visit img ok) (neighbors (c mod img_width img) (c div img_width img)) (q, v) = (q', v')"
  shows "flood_inv img ok V0 s (insert (pix img c) P) (q', v')"
    and "2 * zeros v' + length q' < 2 * zeros v + length (c # q)"
proof -
  let ?N = "{p. adjacent4 (pix img c) p \<and> in_image img p \<and> ok p}"
  have len: "length v = img_width img * img_height img" using inv by (simp add: flood_inv_def)
  have f: "length v' = length v" "marked img v' = marked img v \<union> ?N"
    "set q' = set q \<union> pixel_index img ` (?N - marked img v)"
    "2 * zeros v' + length q' \<le> 2 * zeros v + length q" "set v \<subseteq> {0, 1} \<longrightarrow> set v' \<subseteq> {0, 1}"
    using fold_gen_visit [OF len res] by (simp_all add: cand_neighbors pix_def)
  show "2 * zeros v' + length q' < 2 * zeros v + length (c # q)" using f(4) by simp
  have c: "pix img c \<in> grown img ok s" using inv by (auto simp: flood_inv_def)
  have N: "?N \<subseteq> grown img ok s" using c by (auto intro: grown_step)
  have pq': "pix img ` set q' = pix img ` set q \<union> (?N - marked img v)"
  proof -
    have "pix img ` pixel_index img ` (?N - marked img v) = ?N - marked img v"
      by (auto simp: image_iff pix_pixel_index)
    then show ?thesis by (simp add: f(3) image_Un)
  qed
  have m: "marked img v = V0 \<union> P \<union> insert (pix img c) (pix img ` set q)"
    using inv by (simp add: flood_inv_def)
  have "\<forall>i\<in>set q'. i < img_width img * img_height img"
    using inv f(3) by (auto simp: flood_inv_def pixel_index_lt)
  moreover have "marked img v' = V0 \<union> insert (pix img c) P \<union> pix img ` set q'"
    unfolding f(2) pq' m by auto
  moreover have "s \<in> insert (pix img c) P \<union> pix img ` set q'"
    using inv unfolding pq' by (auto simp: flood_inv_def)
  moreover have "insert (pix img c) P \<union> pix img ` set q' \<subseteq> grown img ok s"
    using inv N c unfolding pq' by (auto simp: flood_inv_def)
  moreover have "\<forall>p\<in>insert (pix img c) P. \<forall>p'. adjacent4 p p' \<and> in_image img p' \<and> ok p' \<longrightarrow> p' \<in> marked img v'"
    using inv unfolding f(2) by (auto simp: flood_inv_def)
  ultimately show "flood_inv img ok V0 s (insert (pix img c) P) (q', v')"
    using inv f(1,5) by (simp add: flood_inv_def)
qed

lemma flood_inv_final:
  assumes inv: "flood_inv img ok V0 s P ([], v)" and dis: "grown img ok s \<inter> V0 = {}"
  shows "P = grown img ok s" and "marked img v = V0 \<union> grown img ok s"
proof -
  have sub: "P \<subseteq> grown img ok s" and s: "s \<in> P" and m: "marked img v = V0 \<union> P"
    and cl: "\<And>p p'. p \<in> P \<Longrightarrow> adjacent4 p p' \<Longrightarrow> in_image img p' \<Longrightarrow> ok p' \<Longrightarrow> p' \<in> marked img v"
    using inv by (auto simp: flood_inv_def)
  have "grown img ok s \<subseteq> P"
  proof (rule grown_closed [OF s])
    fix p p' assume a: "p \<in> P" "adjacent4 p p'" "in_image img p'" "ok p'"
    then have "p' \<in> grown img ok s" using sub by (auto intro: grown_step)
    moreover have "p' \<in> V0 \<union> P" using cl [OF a] m by simp
    ultimately show "p' \<in> P" using dis by auto
  qed
  then show "P = grown img ok s" using sub by auto
  then show "marked img v = V0 \<union> grown img ok s" using m by simp
qed

section \<open>FloodSelector: proofs\<close>

lemma nat_index:
  "0 \<le> nx \<Longrightarrow> 0 \<le> ny \<Longrightarrow> nat (ny * int (img_width img) + nx) = pixel_index img (nat nx, nat ny)"
  by (simp add: pixel_index_def nat_add_distrib nat_mult_distrib)

lemma ff_visit_gen:
  "ff_visit img (seed_color img s) tol n (q, v, v) =
     (case gen_visit img (ff_ok img s tol) n (q, v) of (q', v') \<Rightarrow> (q', v', v'))"
proof -
  obtain nx ny where n: "n = (nx, ny)" by (cases n)
  show ?thesis
  proof (cases "nx \<ge> 0 \<and> nx < int (img_width img) \<and> ny \<ge> 0 \<and> ny < int (img_height img)")
    case True
    then have i: "nat (ny * int (img_width img) + nx) = pixel_index img (nat nx, nat ny)"
      by (simp add: nat_index)
    show ?thesis
      using True unfolding ff_visit_def gen_visit_def n
      by (simp add: i Let_def ff_ok_def rgb_distance_def channel_def seed_color_def)
  next
    case False
    then show ?thesis unfolding ff_visit_def gen_visit_def n seed_color_def by auto
  qed
qed

lemma fold_ff_visit_gen:
  "fold (ff_visit img (seed_color img s) tol) ns (q, v, v) =
     (case fold (gen_visit img (ff_ok img s tol)) ns (q, v) of (q', v') \<Rightarrow> (q', v', v'))"
proof (induction ns arbitrary: q v)
  case Nil
  then show ?case by simp
next
  case (Cons n ns)
  obtain q1 v1 where g: "gen_visit img (ff_ok img s tol) n (q, v) = (q1, v1)"
    by (cases "gen_visit img (ff_ok img s tol) n (q, v)")
  show ?case by (simp add: ff_visit_gen g Cons.IH)
qed

lemma ff_step_inv:
  assumes "ff_inv img s tol st" and "case st of (q, v, m) \<Rightarrow> q \<noteq> []"
  shows "ff_inv img s tol (ff_step img (seed_color img s) tol st)
    \<and> ff_measure (ff_step img (seed_color img s) tol st) < ff_measure st"
proof -
  obtain c q v P where st: "st = (c # q, v, v)" and inv: "flood_inv img (ff_ok img s tol) {} s P (c # q, v)"
    using assms by (cases st) (auto simp: ff_inv_def neq_Nil_conv)
  obtain q' v' where g: "fold (gen_visit img (ff_ok img s tol))
      (neighbors (c mod img_width img) (c div img_width img)) (q, v) = (q', v')"
    by (cases "fold (gen_visit img (ff_ok img s tol))
      (neighbors (c mod img_width img) (c div img_width img)) (q, v)")
  have r: "ff_step img (seed_color img s) tol st = (q', v', v')"
    by (simp add: st fold_ff_visit_gen g)
  from flood_inv_step [OF inv g] show ?thesis
    unfolding r by (auto simp: ff_inv_def ff_measure_def st)
qed

lemma ff_loop_total:
  assumes "ff_inv img s tol st"
  shows "\<exists>v. ff_loop img (seed_color img s) tol st = Some ([], v, v)
    \<and> length v = img_width img * img_height img \<and> set v \<subseteq> {0, 1}
    \<and> marked img v = grown img (ff_ok img s tol) s"
proof -
  let ?b = "(\<lambda>(queue, visited, msk). queue \<noteq> []) :: ff_state \<Rightarrow> bool"
  let ?c = "ff_step img (seed_color img s) tol"
  have "\<exists>t. while_option ?b ?c st = Some t"
  proof (rule measure_while_option_Some [where P = "ff_inv img s tol" and f = ff_measure])
    fix st' assume "ff_inv img s tol st'" "?b st'"
    then show "ff_inv img s tol (?c st') \<and> ff_measure (?c st') < ff_measure st'"
      using ff_step_inv [of img s tol st'] by (auto split: prod.splits)
  qed (rule assms)
  then obtain t where t: "while_option ?b ?c st = Some t" ..
  have "ff_inv img s tol t"
  proof (rule while_option_rule [where P = "ff_inv img s tol", OF _ t assms])
    fix st' assume "ff_inv img s tol st'" "?b st'"
    then show "ff_inv img s tol (?c st')"
      using ff_step_inv [of img s tol st'] by (auto split: prod.splits)
  qed
  moreover have "\<not> ?b t" using while_option_stop [OF t] .
  ultimately obtain v P where tv: "t = ([], v, v)" and inv: "flood_inv img (ff_ok img s tol) {} s P ([], v)"
    by (cases t) (auto simp: ff_inv_def)
  have "marked img v = grown img (ff_ok img s tol) s"
    using flood_inv_final(2) [OF inv] by simp
  moreover have "length v = img_width img * img_height img" "set v \<subseteq> {0, 1}"
    using inv by (simp_all add: flood_inv_def)
  ultimately show ?thesis using t tv by (simp add: ff_loop_def)
qed

lemma seed_pixel_in_image:
  "seed_in_bounds img startX startY \<Longrightarrow> in_image img (seed_pixel startX startY)"
  by (simp add: seed_in_bounds_def in_image_def seed_pixel_def nat_less_iff floor_less_iff)

lemma seed_index:
  "seed_in_bounds img startX startY \<Longrightarrow>
   nat (\<lfloor>startY\<rfloor> * int (img_width img) + \<lfloor>startX\<rfloor>) = pixel_index img (seed_pixel startX startY)"
  by (simp add: seed_in_bounds_def seed_pixel_def nat_index)

lemma performFloodFill_out:
  "\<not> seed_in_bounds img startX startY \<Longrightarrow> performFloodFill img startX startY tol = Some None"
  by (auto simp: performFloodFill_def seed_in_bounds_def Let_def)

lemma performFloodFill_in:
  assumes "seed_in_bounds img startX startY"
  shows "performFloodFill img startX startY tol =
    (let s = seed_pixel startX startY; n = img_width img * img_height img in
     if channel img s 3 = 0 then Some None
     else map_option (\<lambda>(queue, visited, msk). Some msk)
            (ff_loop img (seed_color img s) tol
               ([pixel_index img s], (replicate n 0)[pixel_index img s := 1],
                (replicate n 0)[pixel_index img s := 1])))"
proof -
  have b: "\<not> (startX < 0 \<or> startX \<ge> real (img_width img) \<or> startY < 0 \<or> startY \<ge> real (img_height img))"
    using assms by (auto simp: seed_in_bounds_def)
  show ?thesis
    unfolding performFloodFill_def Let_def seed_index [OF assms] seed_color_def channel_def
    using b by simp
qed

lemma marked_replicate: "marked img (replicate (img_width img * img_height img) 0) = {}"
  by (auto simp: marked_def dest: pixel_index_lt)

lemma ff_inv_init:
  assumes "in_image img s"
  shows "ff_inv img s tol ([pixel_index img s],
    (replicate (img_width img * img_height img) 0)[pixel_index img s := 1],
    (replicate (img_width img * img_height img) 0)[pixel_index img s := 1])"
proof -
  let ?v = "(replicate (img_width img * img_height img) (0 :: byte))[pixel_index img s := 1]"
  have "set ?v \<subseteq> {0, 1}"
    using set_update_subset_insert [of "replicate (img_width img * img_height img) (0 :: byte)"] by fastforce
  moreover have "marked img ?v = {s}"
    using assms by (simp add: marked_update marked_replicate)
  ultimately have "flood_inv img (ff_ok img s tol) {} s {} ([pixel_index img s], ?v)"
    using assms by (simp add: flood_inv_def pixel_index_lt pix_pixel_index grown_seed)
  then show ?thesis unfolding ff_inv_def by auto
qed

lemma performFloodFill_mask:
  assumes b: "seed_in_bounds img startX startY" and a: "channel img (seed_pixel startX startY) 3 \<noteq> 0"
  shows "\<exists>m. performFloodFill img startX startY tol = Some (Some m)
    \<and> length m = img_width img * img_height img \<and> set m \<subseteq> {0, 1}
    \<and> marked img m = grown img (ff_ok img (seed_pixel startX startY) tol) (seed_pixel startX startY)"
proof -
  from ff_loop_total [OF ff_inv_init [OF seed_pixel_in_image [OF b]], of tol]
  obtain v where "ff_loop img (seed_color img (seed_pixel startX startY)) tol
      ([pixel_index img (seed_pixel startX startY)],
       (replicate (img_width img * img_height img) 0)[pixel_index img (seed_pixel startX startY) := 1],
       (replicate (img_width img * img_height img) 0)[pixel_index img (seed_pixel startX startY) := 1])
      = Some ([], v, v)"
    and "length v = img_width img * img_height img" "set v \<subseteq> {0, 1}"
    and "marked img v = grown img (ff_ok img (seed_pixel startX startY) tol) (seed_pixel startX startY)"
    by blast
  then show ?thesis
    using a by (simp add: performFloodFill_in [OF b] Let_def)
qed

lemma mask_entry:
  assumes "set m \<subseteq> {0, 1 :: byte}" "length m = img_width img * img_height img" "in_image img p"
  shows "m ! pixel_index img p = 1 \<longleftrightarrow> p \<in> marked img m"
proof -
  have "m ! pixel_index img p \<in> set m"
    using assms pixel_index_lt by (intro nth_mem) simp
  then have "m ! pixel_index img p = 0 \<or> m ! pixel_index img p = 1" using assms(1) by auto
  then show ?thesis using assms(3) by (auto simp: marked_def)
qed

lemma rgb_distance_nonneg: "0 \<le> rgb_distance img s p"
  by (simp add: rgb_distance_def)

lemma rgb_distance_self [simp]: "rgb_distance img s s = 0"
  by (simp add: rgb_distance_def)

lemma grown_negative:
  assumes "tol < 0"
  shows "grown img (ff_ok img s tol) s = {s}"
proof -
  have "\<not> ff_ok img s tol p" for p
    using assms rgb_distance_nonneg [of img s p] by (simp add: ff_ok_def)
  then have "{(a, b). adjacent4 a b \<and> in_image img b \<and> ff_ok img s tol b} = {}" by simp
  then show ?thesis unfolding grown_def by (simp only: rtrancl_empty) auto
qed

lemma grown_similar:
  assumes s: "similar img s tol s"
  shows "grown img (ff_ok img s tol) s = similar_region img s tol"
proof (intro set_eqI iffI)
  fix p assume "p \<in> grown img (ff_ok img s tol) s"
  then have "(s, p) \<in> {(a, b). adjacent4 a b \<and> in_image img b \<and> ff_ok img s tol b}\<^sup>*"
    by (simp add: grown_def)
  then have "(s, p) \<in> (linked (similar img s tol))\<^sup>* \<and> similar img s tol p"
  proof (induction rule: rtrancl_induct)
    case base
    then show ?case using s by simp
  next
    case (step a b)
    then have "(a, b) \<in> linked (similar img s tol)" "similar img s tol b"
      by (auto simp: linked_def similar_def ff_ok_def)
    then show ?case using step.IH by (auto intro: rtrancl_into_rtrancl)
  qed
  then show "p \<in> similar_region img s tol" using s by (simp add: similar_region_def)
next
  fix p assume "p \<in> similar_region img s tol"
  then have "(s, p) \<in> (linked (similar img s tol))\<^sup>*" by (simp add: similar_region_def)
  then show "p \<in> grown img (ff_ok img s tol) s"
  proof (induction rule: rtrancl_induct)
    case base
    then show ?case by (rule grown_seed)
  next
    case (step a b)
    then show ?case
      by (auto simp: linked_def similar_def ff_ok_def intro: grown_step)
  qed
qed

lemma similar_seed:
  "in_image img s \<Longrightarrow> channel img s 3 \<noteq> 0 \<Longrightarrow> 0 \<le> tol \<Longrightarrow> similar img s tol s"
  by (simp add: similar_def word_neq_0_conv)

text \<open>
  Claim C3, as the code has it. For every well-formed image, every in-bounds seed whose pixel
  has alpha above 0 and every tolerance, \<^verbatim>\<open>performFloodFill\<close> returns a mask. When the
  tolerance is not negative, the mask has 1 at a pixel exactly when that pixel is reachable
  from the seed pixel (the click rounded down) by a 4-connected path on which every pixel has
  alpha above 0 and Manhattan RGB distance to the seed pixel's colour at most the tolerance.
  When the tolerance is negative, the mask has 1 at the seed pixel and nowhere else.
\<close>
theorem floodFill_marks_similar_region:
  assumes "wf_image img" and "seed_in_bounds img startX startY"
    and "channel img (seed_pixel startX startY) 3 > 0"
  shows "\<exists>m. performFloodFill img startX startY tol = Some (Some m) \<and>
    (\<forall>p. in_image img p \<longrightarrow>
       (m ! pixel_index img p = 1 \<longleftrightarrow>
          (if 0 \<le> tol then p \<in> similar_region img (seed_pixel startX startY) tol
           else p = seed_pixel startX startY)))"
proof -
  let ?s = "seed_pixel startX startY"
  have a: "channel img ?s 3 \<noteq> 0" using assms(3) by auto
  obtain m where m: "performFloodFill img startX startY tol = Some (Some m)"
    "length m = img_width img * img_height img" "set m \<subseteq> {0, 1}"
    "marked img m = grown img (ff_ok img ?s tol) ?s"
    using performFloodFill_mask [OF assms(2) a] by blast
  have "grown img (ff_ok img ?s tol) ?s =
      (if 0 \<le> tol then similar_region img ?s tol else {?s})"
    using grown_negative [of tol img ?s]
      grown_similar [OF similar_seed [OF seed_pixel_in_image [OF assms(2)] a], of tol]
    by auto
  then have "m ! pixel_index img p = 1 \<longleftrightarrow>
      (if 0 \<le> tol then p \<in> similar_region img ?s tol else p = ?s)" if "in_image img p" for p
    using mask_entry [OF m(3,2) that] m(4) by (simp split: if_splits)
  then show ?thesis using m(1) by blast
qed

theorem floodFill_marks_similar_region_witness:
  "wf_image red_green \<and> seed_in_bounds red_green 0 0 \<and> channel red_green (seed_pixel 0 0) 3 > 0 \<and>
   performFloodFill red_green 0 0 30 = Some (Some [1, 0]) \<and>
   (0, 0) \<in> similar_region red_green (seed_pixel 0 0) 30 \<and>
   (1, 0) \<notin> similar_region red_green (seed_pixel 0 0) 30"
proof -
  have h1: "wf_image red_green" by (simp add: wf_image_def red_green_def)
  have h2: "seed_in_bounds red_green 0 0" by (simp add: seed_in_bounds_def red_green_def)
  have h3: "channel red_green (seed_pixel 0 0) 3 > 0"
    by (simp add: channel_def seed_pixel_def pixel_index_def red_green_def)
  have e: "performFloodFill red_green 0 0 30 = Some (Some [1, 0])"
    by code_simp
  have i: "in_image red_green (0, 0)" "in_image red_green (1, 0)"
    "pixel_index red_green (0, 0) = 0" "pixel_index red_green (1, 0) = 1"
    by (simp_all add: in_image_def pixel_index_def red_green_def)
  from floodFill_marks_similar_region [OF h1 h2 h3, of 30]
  have all: "\<forall>p. in_image red_green p \<longrightarrow>
      ([1, 0 :: byte] ! pixel_index red_green p = 1 \<longleftrightarrow>
        p \<in> similar_region red_green (seed_pixel 0 0) 30)"
    by (simp add: e)
  have a: "(0, 0) \<in> similar_region red_green (seed_pixel 0 0) 30"
    using all [rule_format, OF i(1)] unfolding i(3) by simp
  have b: "(1, 0) \<notin> similar_region red_green (seed_pixel 0 0) 30"
    using all [rule_format, OF i(2)] unfolding i(4) by simp
  show ?thesis using h1 h2 h3 e a b by blast
qed

text \<open>
  Claim C3 as stated, for every tolerance, does not hold: with tolerance -1 the seed pixel is
  marked, and no pixel, the seed included, is within distance -1 of the seed colour.
\<close>
theorem floodFill_negative_tolerance_counterexample:
  "performFloodFill one_pixel 0 0 (- 1) = Some (Some [1]) \<and>
   [1 :: byte] ! pixel_index one_pixel (0, 0) = 1 \<and>
   (0, 0) \<notin> similar_region one_pixel (seed_pixel 0 0) (- 1)"
proof -
  have "performFloodFill one_pixel 0 0 (- 1) = Some (Some [1])"
    by (simp add: performFloodFill_def ff_loop_def while_option_unfold ff_visit_def neighbors_def
      one_pixel_def Let_def)
  moreover have "\<not> similar one_pixel (seed_pixel 0 0) (- 1) (seed_pixel 0 0)"
    using rgb_distance_nonneg [of one_pixel "seed_pixel 0 0" "seed_pixel 0 0"]
    by (simp add: similar_def)
  ultimately show ?thesis by (simp add: similar_region_def pixel_index_def)
qed

subsection \<open>Every JavaScript number\<close>

lemma js_index_nat: "js_index (Fin (real n)) len = (if n < len then Some n else None)"
  by (simp add: js_index_def)

lemma ta_get_nat: "n < length xs \<Longrightarrow> ta_get xs (Fin (real n)) = Some (xs ! n)"
  by (simp add: ta_get_def js_index_nat)

lemma ta_set_nat: "n < length xs \<Longrightarrow> ta_set xs (Fin (real n)) v = xs[n := v]"
  by (simp add: ta_set_def js_index_nat)

lemma ff_visit_length:
  "ff_visit img c t n (q, v, m) = (q', v', m') \<Longrightarrow> length v' = length v \<and> length m' = length m"
  by (auto simp: ff_visit_def Let_def split: prod.splits if_splits)

lemma fold_ff_visit_length:
  "fold (ff_visit img c t) ns (q, v, m) = (q', v', m') \<Longrightarrow> length v' = length v \<and> length m' = length m"
proof (induction ns arbitrary: q v m)
  case Nil
  then show ?case by simp
next
  case (Cons n ns)
  obtain q1 v1 m1 where s: "ff_visit img c t n (q, v, m) = (q1, v1, m1)"
    by (cases "ff_visit img c t n (q, v, m)")
  from Cons.IH [of q1 v1 m1] Cons.prems ff_visit_length [OF s] show ?case by (simp add: s)
qed

lemma byte_diff_bound: "\<bar>uint (a :: byte) - uint (b :: byte)\<bar> \<le> 255"
proof -
  have "uint a < 256" "uint b < 256" using uint_bounded [of a] uint_bounded [of b] by simp_all
  moreover have "0 \<le> uint a" "0 \<le> uint b" by simp_all
  ultimately show ?thesis by linarith
qed

lemma js_le_tol: "0 \<le> d \<Longrightarrow> d \<le> 765 \<Longrightarrow> js_le (Fin d) tol = (d \<le> tol_real tol)"
  by (cases tol) (simp_all add: tol_real_def)

lemma ffj_visit_sim:
  assumes wf: "wf_image img"
    and lv: "length v = img_width img * img_height img"
    and lm: "length m = img_width img * img_height img"
  shows "ffj_visit img (Some r, Some g, Some b) tol (Fin (real_of_int nx), Fin (real_of_int ny))
      (ffj_of (q, v, m)) = ffj_of (ff_visit img (r, g, b) (tol_real tol) (nx, ny) (q, v, m))"
proof (cases "nx \<ge> 0 \<and> nx < int (img_width img) \<and> ny \<ge> 0 \<and> ny < int (img_height img)")
  case True
  let ?n = "nat (ny * int (img_width img) + nx)"
  have "in_image img (nat nx, nat ny)" using True by (simp add: in_image_def nat_less_iff)
  then have n: "?n < img_width img * img_height img"
    using pixel_index_lt [of img "(nat nx, nat ny)"] True by (simp add: nat_index)
  have d: "?n * 4 + 3 < length (img_data img)" "?n * 4 + 2 < length (img_data img)"
    "?n * 4 + 1 < length (img_data img)" "?n * 4 < length (img_data img)"
    using n wf by (simp_all add: wf_image_def)
  have e: "real_of_int ny * real (img_width img) + real_of_int nx = real ?n"
    using True by (simp add: of_nat_nat)
  have i: "js_add (js_mul (Fin (real_of_int ny)) (Fin (real (img_width img)))) (Fin (real_of_int nx))
      = Fin (real ?n)"
    by (simp add: e)
  have p: "js_mul (Fin (real ?n)) (Fin 4) = Fin (real (?n * 4))"
    "js_add (Fin (real (?n * 4))) (Fin 1) = Fin (real (?n * 4 + 1))"
    "js_add (Fin (real (?n * 4))) (Fin 2) = Fin (real (?n * 4 + 2))"
    "js_add (Fin (real (?n * 4))) (Fin 3) = Fin (real (?n * 4 + 3))"
    by simp_all
  have t: "js_ge (Fin (real_of_int nx)) (Fin 0) \<and> js_lt (Fin (real_of_int nx)) (Fin (real (img_width img)))
      \<and> js_ge (Fin (real_of_int ny)) (Fin 0) \<and> js_lt (Fin (real_of_int ny)) (Fin (real (img_height img)))"
    using True by (simp add: js_ge_def)
  have df: "js_add (js_add (js_abs (js_sub (js_num (Some r')) (js_num (Some r))))
                          (js_abs (js_sub (js_num (Some g')) (js_num (Some g)))))
                  (js_abs (js_sub (js_num (Some b')) (js_num (Some b))))
      = Fin (real_of_int (\<bar>uint r' - uint r\<bar> + \<bar>uint g' - uint g\<bar> + \<bar>uint b' - uint b\<bar>))"
    for r' g' b' :: byte
    by (simp add: js_num_def js_sub_def)
  have le: "js_le (Fin (real_of_int (\<bar>uint r' - uint r\<bar> + \<bar>uint g' - uint g\<bar> + \<bar>uint b' - uint b\<bar>))) tol
      = (real_of_int (\<bar>uint r' - uint r\<bar> + \<bar>uint g' - uint g\<bar> + \<bar>uint b' - uint b\<bar>) \<le> tol_real tol)"
    for r' g' b' :: byte
  proof -
    let ?D = "\<bar>uint r' - uint r\<bar> + \<bar>uint g' - uint g\<bar> + \<bar>uint b' - uint b\<bar>"
    have "0 \<le> ?D" "?D \<le> 765"
      using byte_diff_bound [of r' r] byte_diff_bound [of g' g] byte_diff_bound [of b' b]
      by linarith+
    then have "0 \<le> real_of_int ?D" "real_of_int ?D \<le> 765" by linarith+
    then show ?thesis by (rule js_le_tol)
  qed
  have gt: "js_gt (js_num (Some a)) (Fin 0) = (a > 0)" for a :: byte
  proof -
    have "js_gt (js_num (Some a)) (Fin 0) = (0 < real_of_int (uint a))"
      by (simp add: js_gt_def js_num_def)
    also have "\<dots> = (0 < uint a)" by (rule of_int_0_less_iff)
    also have "\<dots> = (a > 0)" by (simp add: word_less_def)
    finally show ?thesis .
  qed
  have ta: "ta_get v (Fin (real ?n)) = Some (v ! ?n)"
    "ta_set v (Fin (real ?n)) 1 = v[?n := 1]" "ta_set m (Fin (real ?n)) 1 = m[?n := 1]"
    "ta_get (img_data img) (Fin (real (?n * 4))) = Some (img_data img ! (?n * 4))"
    "ta_get (img_data img) (Fin (real (?n * 4 + 1))) = Some (img_data img ! (?n * 4 + 1))"
    "ta_get (img_data img) (Fin (real (?n * 4 + 2))) = Some (img_data img ! (?n * 4 + 2))"
    "ta_get (img_data img) (Fin (real (?n * 4 + 3))) = Some (img_data img ! (?n * 4 + 3))"
    using n d lv lm by (simp_all only: ta_get_nat ta_set_nat)
  show ?thesis
    unfolding ffj_visit_def ff_visit_def ffj_of_def Let_def prod.case
    unfolding i unfolding p unfolding ta df gt le
    using True t by (simp add: js_not_def)
next
  case False
  then have "\<not> (js_ge (Fin (real_of_int nx)) (Fin 0) \<and> js_lt (Fin (real_of_int nx)) (Fin (real (img_width img)))
      \<and> js_ge (Fin (real_of_int ny)) (Fin 0) \<and> js_lt (Fin (real_of_int ny)) (Fin (real (img_height img))))"
    by (auto simp: js_ge_def)
  then show ?thesis
    using False unfolding ffj_visit_def ff_visit_def ffj_of_def Let_def prod.case by auto
qed

lemma fold_ffj_visit_sim:
  assumes wf: "wf_image img"
  shows "length v = img_width img * img_height img \<Longrightarrow> length m = img_width img * img_height img \<Longrightarrow>
    fold (ffj_visit img (Some r, Some g, Some b) tol)
      (map (\<lambda>(nx, ny). (Fin (real_of_int nx), Fin (real_of_int ny))) ns) (ffj_of (q, v, m))
    = ffj_of (fold (ff_visit img (r, g, b) (tol_real tol)) ns (q, v, m))"
proof (induction ns arbitrary: q v m)
  case Nil
  then show ?case by simp
next
  case (Cons n ns)
  obtain nx ny where n: "n = (nx, ny)" by (cases n)
  obtain q1 v1 m1 where s: "ff_visit img (r, g, b) (tol_real tol) (nx, ny) (q, v, m) = (q1, v1, m1)"
    by (cases "ff_visit img (r, g, b) (tol_real tol) (nx, ny) (q, v, m)")
  have l: "length v1 = img_width img * img_height img" "length m1 = img_width img * img_height img"
    using ff_visit_length [OF s] Cons.prems by simp_all
  show ?case
    using Cons.IH [OF l, of q1] ffj_visit_sim [OF wf Cons.prems, of r g b tol nx ny q]
    by (simp add: n s)
qed

lemma ffj_step_sim:
  assumes wf: "wf_image img"
    and lv: "length v = img_width img * img_height img"
    and lm: "length m = img_width img * img_height img"
  shows "ffj_step img (Some r, Some g, Some b) tol (ffj_of (c # q, v, m))
    = ffj_of (ff_step img (r, g, b) (tol_real tol) (c # q, v, m))"
proof -
  have w: "0 < img_width img" using wf by (simp add: wf_image_def)
  have fl: "\<lfloor>real c / real (img_width img)\<rfloor> = int (c div img_width img)"
    by (simp add: floor_divide_of_nat_eq)
  have "0 \<le> real c / real (img_width img)" by simp
  then have nn: "\<not> real c / real (img_width img) < 0" by linarith
  have "real c = real (img_width img) * real (c div img_width img) + real (c mod img_width img)"
    by (metis mult_div_mod_eq of_nat_add of_nat_mult)
  then have eq: "real c - real (img_width img) * real (c div img_width img) = real (c mod img_width img)"
    by linarith
  have rm: "js_rem (Fin (real c)) (Fin (real (img_width img))) = Fin (real (c mod img_width img))"
    using w nn by (simp add: fl eq)
  have dv: "js_floor (js_div (Fin (real c)) (Fin (real (img_width img)))) = Fin (real (c div img_width img))"
    using w by (simp add: fl)
  have ns: "[(js_add (Fin (real x)) (Fin 1), Fin (real y)), (js_sub (Fin (real x)) (Fin 1), Fin (real y)),
      (Fin (real x), js_add (Fin (real y)) (Fin 1)), (Fin (real x), js_sub (Fin (real y)) (Fin 1))]
    = map (\<lambda>(nx, ny). (Fin (real_of_int nx), Fin (real_of_int ny))) (neighbors x y)" for x y
    by (simp add: neighbors_def js_sub_def)
  have "ffj_step img (Some r, Some g, Some b) tol (ffj_of (c # q, v, m))
      = fold (ffj_visit img (Some r, Some g, Some b) tol)
          (map (\<lambda>(nx, ny). (Fin (real_of_int nx), Fin (real_of_int ny)))
             (neighbors (c mod img_width img) (c div img_width img))) (ffj_of (q, v, m))"
    unfolding ffj_of_def prod.case list.map ffj_step.simps Let_def rm dv ns ..
  then show ?thesis
    by (simp add: fold_ffj_visit_sim [OF wf lv lm] Let_def)
qed

lemma ffj_loop_sim:
  assumes wf: "wf_image img"
    and lv: "length v = img_width img * img_height img"
    and lm: "length m = img_width img * img_height img"
  shows "map_option ffj_of (ff_loop img (r, g, b) (tol_real tol) (q, v, m))
    = ffj_loop img (Some r, Some g, Some b) tol (ffj_of (q, v, m))"
  unfolding ff_loop_def ffj_loop_def
proof (rule while_option_commute_invariant
    [where P = "\<lambda>(q, v, m). length v = img_width img * img_height img
      \<and> length m = img_width img * img_height img"])
  fix s :: ff_state
  obtain q' v' m' where s: "s = (q', v', m')" by (cases s)
  assume P: "case s of (q, v, m) \<Rightarrow> length v = img_width img * img_height img
      \<and> length m = img_width img * img_height img"
  show "(case s of (queue, visited, msk) \<Rightarrow> queue \<noteq> []) =
      (case ffj_of s of (queue, visited, msk) \<Rightarrow> queue \<noteq> [])"
    by (simp add: s ffj_of_def)
  assume b: "case s of (queue, visited, msk) \<Rightarrow> queue \<noteq> []"
  then obtain c q'' where q': "q' = c # q''" using s by (cases q') auto
  show "ffj_of (ff_step img (r, g, b) (tol_real tol) s) = ffj_step img (Some r, Some g, Some b) tol (ffj_of s)"
    using ffj_step_sim [OF wf, of v' m' r g b tol c q''] P by (simp add: s q')
  obtain q1 v1 m1 where f: "ff_step img (r, g, b) (tol_real tol) s = (q1, v1, m1)"
    by (cases "ff_step img (r, g, b) (tol_real tol) s")
  then have "fold (ff_visit img (r, g, b) (tol_real tol)) (neighbors (c mod img_width img) (c div img_width img))
      (q'', v', m') = (q1, v1, m1)"
    by (simp add: s q' Let_def)
  from fold_ff_visit_length [OF this] P
  show "case ff_step img (r, g, b) (tol_real tol) s of (q, v, m) \<Rightarrow> length v = img_width img * img_height img
      \<and> length m = img_width img * img_height img"
    unfolding f by (simp add: s)
qed (simp add: lv lm)

lemma performFloodFill_js_real:
  assumes wf: "wf_image img"
  shows "performFloodFill_js img (Fin startX) (Fin startY) tol =
    performFloodFill img startX startY (tol_real tol)"
proof (cases "seed_in_bounds img startX startY")
  case False
  then have "js_lt (Fin startX) (Fin 0) \<or> js_ge (Fin startX) (Fin (real (img_width img))) \<or>
      js_lt (Fin startY) (Fin 0) \<or> js_ge (Fin startY) (Fin (real (img_height img)))"
    by (auto simp: seed_in_bounds_def js_ge_def)
  then have "performFloodFill_js img (Fin startX) (Fin startY) tol = Some None"
    by (simp add: performFloodFill_js_def Let_def)
  then show ?thesis using performFloodFill_out [OF False] by simp
next
  case True
  let ?s = "seed_pixel startX startY"
  let ?k = "pixel_index img ?s"
  let ?n = "img_width img * img_height img"
  have b: "\<not> (js_lt (Fin startX) (Fin 0) \<or> js_ge (Fin startX) (Fin (real (img_width img))) \<or>
      js_lt (Fin startY) (Fin 0) \<or> js_ge (Fin startY) (Fin (real (img_height img))))"
    using True by (auto simp: seed_in_bounds_def js_ge_def)
  have k: "?k < ?n" using pixel_index_lt [OF seed_pixel_in_image [OF True]] .
  have d: "?k * 4 + 3 < length (img_data img)" "?k * 4 + 2 < length (img_data img)"
    "?k * 4 + 1 < length (img_data img)" "?k * 4 < length (img_data img)"
    using k wf by (simp_all add: wf_image_def)
  have "real_of_int \<lfloor>startY\<rfloor> * real (img_width img) + real_of_int \<lfloor>startX\<rfloor> = real ?k"
    using True by (simp add: pixel_index_def seed_pixel_def seed_in_bounds_def)
  then have sd: "js_add (js_mul (js_floor (Fin startY)) (Fin (real (img_width img)))) (js_floor (Fin startX))
      = Fin (real ?k)"
    by simp
  have p: "js_mul (Fin (real ?k)) (Fin 4) = Fin (real (?k * 4))"
    "js_add (Fin (real (?k * 4))) (Fin 1) = Fin (real (?k * 4 + 1))"
    "js_add (Fin (real (?k * 4))) (Fin 2) = Fin (real (?k * 4 + 2))"
    "js_add (Fin (real (?k * 4))) (Fin 3) = Fin (real (?k * 4 + 3))"
    by simp_all
  have ta: "ta_set (replicate ?n 0) (Fin (real ?k)) 1 = (replicate ?n 0)[?k := 1]"
    "ta_get (img_data img) (Fin (real (?k * 4))) = Some (img_data img ! (?k * 4))"
    "ta_get (img_data img) (Fin (real (?k * 4 + 1))) = Some (img_data img ! (?k * 4 + 1))"
    "ta_get (img_data img) (Fin (real (?k * 4 + 2))) = Some (img_data img ! (?k * 4 + 2))"
    "ta_get (img_data img) (Fin (real (?k * 4 + 3))) = Some (img_data img ! (?k * 4 + 3))"
    using k d by (simp_all only: ta_get_nat ta_set_nat length_replicate)
  have js: "performFloodFill_js img (Fin startX) (Fin startY) tol =
      (if img_data img ! (?k * 4 + 3) = 0 then Some None
       else map_option (\<lambda>(queue, visited, msk). Some msk)
              (ffj_loop img (Some (img_data img ! (?k * 4)), Some (img_data img ! (?k * 4 + 1)),
                   Some (img_data img ! (?k * 4 + 2))) tol
                 (ffj_of ([?k], (replicate ?n 0)[?k := 1], (replicate ?n 0)[?k := 1]))))"
    unfolding performFloodFill_js_def Let_def
    unfolding sd unfolding p unfolding ta
    using b by (simp add: ffj_of_def)
  have sim: "ffj_loop img (Some r, Some g, Some bb) tol
        (ffj_of ([?k], (replicate ?n 0)[?k := 1], (replicate ?n 0)[?k := 1]))
      = map_option ffj_of (ff_loop img (r, g, bb) (tol_real tol)
          ([?k], (replicate ?n 0)[?k := 1], (replicate ?n 0)[?k := 1]))" for r g bb
    by (rule ffj_loop_sim [OF wf, symmetric]) simp_all
  have c: "(\<lambda>(queue, visited, msk). Some msk) \<circ> ffj_of = (\<lambda>(queue, visited, msk). Some msk)"
    by (auto simp: ffj_of_def fun_eq_iff)
  show ?thesis
    unfolding js sim option.map_comp c
    by (simp add: performFloodFill_in [OF True] Let_def seed_color_def channel_def)
qed

lemma full_mask_eq:
  assumes "length m = img_width img * img_height img" and "set m \<subseteq> {0, 1}"
    and "marked img m = R"
  shows "m = full_mask img R"
proof (rule nth_equalityI)
  show "length m = length (full_mask img R)" using assms(1) by (simp add: full_mask_def)
next
  fix i assume "i < length m"
  then have i: "i < img_width img * img_height img" using assms(1) by simp
  have "m ! i \<in> {0, 1}" using assms(2) \<open>i < length m\<close> nth_mem by blast
  moreover have "pix img i \<in> R \<longleftrightarrow> m ! i \<noteq> 0"
    using assms(3) in_image_pix [OF i] by (auto simp: marked_def pixel_index_pix)
  ultimately show "m ! i = full_mask img R ! i"
    using i by (auto simp: full_mask_def pix_def)
qed

lemma js_add_NaN [simp]: "js_add a NaN = NaN" "js_add NaN a = NaN"
  by (cases a; simp)+

lemma js_mul_NaN [simp]: "js_mul a NaN = NaN" "js_mul NaN a = NaN"
  by (cases a; simp)+

lemma ffj_visit_NaN [simp]: "ffj_visit img start tol (NaN, ny) s = s"
  by (simp add: ffj_visit_def js_ge_def split: prod.splits)

lemma performFloodFill_js_NaN:
  assumes "startX = NaN \<or> startY = NaN"
  shows "performFloodFill_js img startX startY tol =
    (if js_lt startX (Fin 0) \<or> js_ge startX (Fin (real (img_width img))) \<or>
        js_lt startY (Fin 0) \<or> js_ge startY (Fin (real (img_height img))) then Some None
     else Some (Some (replicate (img_width img * img_height img) 0)))"
proof -
  have sd: "js_add (js_mul (js_floor startY) (Fin (real (img_width img)))) (js_floor startX) = NaN"
    using assms by auto
  have ix: "js_index NaN n = None" for n by (simp add: js_index_def)
  have lp: "ffj_loop img start tol ([NaN], v, m) = Some ([], v, m)" for start v m
    unfolding ffj_loop_def
    by (subst while_option_unfold, simp add: js_sub_def, subst while_option_unfold, simp)
  show ?thesis
    unfolding performFloodFill_js_def Let_def sd
    by (simp add: ta_get_def ta_set_def ix lp)
qed

lemma performFloodFill_js_infinite:
  assumes "startX \<in> {PosInf, NegInf} \<or> startY \<in> {PosInf, NegInf}"
  shows "performFloodFill_js img startX startY tol = Some None"
proof -
  have "js_lt startX (Fin 0) \<or> js_ge startX (Fin (real (img_width img))) \<or>
      js_lt startY (Fin 0) \<or> js_ge startY (Fin (real (img_height img)))"
    using assms by (auto simp: js_ge_def)
  then show ?thesis by (simp add: performFloodFill_js_def Let_def)
qed

lemma performFloodFill_js_region:
  assumes wf: "wf_image img" and b: "seed_in_bounds img x y"
    and a: "channel img (seed_pixel x y) 3 \<noteq> 0"
  shows "performFloodFill_js img (Fin x) (Fin y) tol =
    Some (Some (full_mask img
      (if 0 \<le> tol_real tol then similar_region img (seed_pixel x y) (tol_real tol)
       else {seed_pixel x y})))"
proof -
  let ?s = "seed_pixel x y"
  let ?t = "tol_real tol"
  obtain m where m: "performFloodFill img x y ?t = Some (Some m)"
    "length m = img_width img * img_height img" "set m \<subseteq> {0, 1}"
    "marked img m = grown img (ff_ok img ?s ?t) ?s"
    using performFloodFill_mask [OF b a] by blast
  have "grown img (ff_ok img ?s ?t) ?s = (if 0 \<le> ?t then similar_region img ?s ?t else {?s})"
    using grown_negative [of ?t img ?s]
      grown_similar [OF similar_seed [OF seed_pixel_in_image [OF b] a], of ?t]
    by auto
  then have "m = full_mask img (if 0 \<le> ?t then similar_region img ?s ?t else {?s})"
    using full_mask_eq [OF m(2,3)] m(4) by simp
  then show ?thesis using m(1) by (simp add: performFloodFill_js_real [OF wf])
qed

text \<open>
  Claim C4, as the code has it, over every JavaScript number. For every well-formed image
  and every tolerance, a real, an infinity or NaN: on a real seed \<^verbatim>\<open>performFloodFill\<close>
  returns \<^verbatim>\<open>null\<close> exactly when the seed is out of bounds or the seed pixel has alpha 0, and
  otherwise the loop ends and the result is the complete mask of the region of the seed,
  \<open>width * height\<close> entries with 1 at every pixel of the region of claim C3 and 0 at every
  other pixel. On an infinite coordinate it returns \<^verbatim>\<open>null\<close>. On a NaN coordinate it does
  not, unless the other coordinate fails the bounds check: the four comparisons of the check
  are false on NaN, the seed index is NaN, no entry of an array is read or written at it, the
  loop pops it and finds no neighbour in range, and the mask comes back with all its
  \<open>width * height\<close> entries 0. A seed that is no position of the image is then answered by a
  mask, which marks nothing, and not by \<^verbatim>\<open>null\<close>.
\<close>
theorem floodFill_none_mask_or_zeros:
  assumes "wf_image img"
  shows "performFloodFill_js img (Fin x) (Fin y) tol =
      (if \<not> seed_in_bounds img x y \<or> channel img (seed_pixel x y) 3 = 0 then Some None
       else Some (Some (full_mask img
         (if 0 \<le> tol_real tol then similar_region img (seed_pixel x y) (tol_real tol)
          else {seed_pixel x y})))) \<and>
    (startX \<in> {PosInf, NegInf} \<or> startY \<in> {PosInf, NegInf} \<longrightarrow>
       performFloodFill_js img startX startY tol = Some None) \<and>
    (startX = NaN \<or> startY = NaN \<longrightarrow>
       performFloodFill_js img startX startY tol =
         (if js_lt startX (Fin 0) \<or> js_ge startX (Fin (real (img_width img))) \<or>
             js_lt startY (Fin 0) \<or> js_ge startY (Fin (real (img_height img))) then Some None
          else Some (Some (replicate (img_width img * img_height img) 0))))"
proof -
  have 1: "performFloodFill_js img (Fin x) (Fin y) tol = Some None"
    if "\<not> seed_in_bounds img x y"
    using performFloodFill_out [OF that] by (simp add: performFloodFill_js_real [OF assms])
  have 2: "performFloodFill_js img (Fin x) (Fin y) tol = Some None"
    if "seed_in_bounds img x y" "channel img (seed_pixel x y) 3 = 0"
    using that by (simp add: performFloodFill_js_real [OF assms] performFloodFill_in Let_def)
  show ?thesis
    using 1 2 performFloodFill_js_region [OF assms] performFloodFill_js_infinite
      performFloodFill_js_NaN
    by (cases "seed_in_bounds img x y"; cases "channel img (seed_pixel x y) 3 = 0") simp_all
qed

theorem floodFill_none_mask_or_zeros_witness:
  "wf_image red_green \<and>
   performFloodFill_js red_green NaN (Fin 0) (Fin 30) = Some (Some [0, 0]) \<and>
   performFloodFill_js red_green PosInf (Fin 0) (Fin 30) = Some None \<and>
   performFloodFill_js red_green (Fin 2) (Fin 0) (Fin 30) = Some None \<and>
   performFloodFill_js red_green (Fin 0) (Fin 0) (Fin 30) = Some (Some [1, 0])"
proof -
  have h: "wf_image red_green" by (simp add: wf_image_def red_green_def)
  have n: "performFloodFill_js red_green NaN (Fin 0) (Fin 30) = Some (Some [0, 0])"
    using floodFill_none_mask_or_zeros [OF h, of _ _ "Fin 30" NaN "Fin 0",
        THEN conjunct2, THEN conjunct2]
    by (simp add: red_green_def js_ge_def numeral_2_eq_2)
  have i: "performFloodFill_js red_green PosInf (Fin 0) (Fin 30) = Some None"
    using floodFill_none_mask_or_zeros [OF h, of _ _ "Fin 30" PosInf "Fin 0",
        THEN conjunct2, THEN conjunct1]
    by simp
  have o: "performFloodFill_js red_green (Fin 2) (Fin 0) (Fin 30) = Some None"
    using floodFill_none_mask_or_zeros [OF h, of 2 0 "Fin 30", THEN conjunct1]
    by (simp add: seed_in_bounds_def red_green_def)
  have f: "performFloodFill_js red_green (Fin 0) (Fin 0) (Fin 30) = Some (Some [1, 0])"
    by code_simp
  show ?thesis using h n i o f by blast
qed

text \<open>
  Claim C10. Whenever the seed is in bounds and its pixel has alpha above 0,
  \<^verbatim>\<open>performFloodFill\<close> returns a mask that has 1 at the seed pixel, whatever the tolerance;
  the mask is never all zero.
\<close>
theorem floodFill_seed_marked:
  assumes "wf_image img" and "seed_in_bounds img startX startY"
    and "channel img (seed_pixel startX startY) 3 > 0"
  shows "\<exists>m. performFloodFill img startX startY tol = Some (Some m) \<and>
    m ! pixel_index img (seed_pixel startX startY) = 1 \<and>
    m \<noteq> replicate (img_width img * img_height img) 0"
proof -
  let ?s = "seed_pixel startX startY"
  have a: "channel img ?s 3 \<noteq> 0" using assms(3) by auto
  obtain m where m: "performFloodFill img startX startY tol = Some (Some m)"
    "length m = img_width img * img_height img" "set m \<subseteq> {0, 1}"
    "marked img m = grown img (ff_ok img ?s tol) ?s"
    using performFloodFill_mask [OF assms(2) a] by blast
  have i: "in_image img ?s" by (rule seed_pixel_in_image [OF assms(2)])
  have one: "m ! pixel_index img ?s = 1"
    using mask_entry [OF m(3,2) i] m(4) grown_seed by blast
  have "replicate (img_width img * img_height img) (0 :: byte) ! pixel_index img ?s = 0"
    using pixel_index_lt [OF i] by simp
  then have "m \<noteq> replicate (img_width img * img_height img) 0" using one by auto
  then show ?thesis using m(1) one by blast
qed

theorem floodFill_seed_marked_witness:
  "wf_image red_green \<and> seed_in_bounds red_green 0 0 \<and> channel red_green (seed_pixel 0 0) 3 > 0 \<and>
   (\<exists>m. performFloodFill red_green 0 0 0 = Some (Some m) \<and>
    m ! pixel_index red_green (seed_pixel 0 0) = 1 \<and>
    m \<noteq> replicate (img_width red_green * img_height red_green) 0)"
proof -
  have h1: "wf_image red_green" by (simp add: wf_image_def red_green_def)
  have h2: "seed_in_bounds red_green 0 0" by (simp add: seed_in_bounds_def red_green_def)
  have h3: "channel red_green (seed_pixel 0 0) 3 > 0"
    by (simp add: channel_def seed_pixel_def pixel_index_def red_green_def)
  from floodFill_seed_marked [OF h1 h2 h3, of 0] h1 h2 h3 show ?thesis by blast
qed

section \<open>FrameCompositor and GridSlicer: proofs\<close>

lemma fold_push: "fold (\<lambda>a acc. acc @ [f a]) xs init = init @ map f xs"
  by (induction xs arbitrary: init) simp_all

lemma sliceFromRects_map:
  "sliceFromRects draw img rects removeBackground backgroundColor customSize =
     map (\<lambda>(index, rect).
        rect_frame draw img removeBackground (resolve_bgColor img removeBackground backgroundColor)
          customSize (fst (uniform_size rects customSize)) (snd (uniform_size rects customSize)) index rect)
       (zip [0..<length rects] rects)"
proof -
  have "fold (\<lambda>(index, rect) frames. frames @ [g index rect]) xs init
      = init @ map (\<lambda>(index, rect). g index rect) xs" for g :: "nat \<Rightarrow> rect \<Rightarrow> frame" and xs init
    using fold_push [of "\<lambda>(index, rect). g index rect" xs init]
    by (simp add: case_prod_unfold)
  then show ?thesis
    by (simp add: sliceFromRects_def Let_def case_prod_unfold)
qed

lemma sliceFromRects_length [simp]:
  "length (sliceFromRects draw img rects removeBackground backgroundColor customSize) = length rects"
  by (simp add: sliceFromRects_map)

lemma sliceFromRects_nth:
  "i < length rects \<Longrightarrow>
   sliceFromRects draw img rects removeBackground backgroundColor customSize ! i =
     rect_frame draw img removeBackground (resolve_bgColor img removeBackground backgroundColor)
       customSize (fst (uniform_size rects customSize)) (snd (uniform_size rects customSize)) i (rects ! i)"
  by (simp add: sliceFromRects_map)

lemma clip_polygon_eq:
  "(case rect_path r of
      None \<Rightarrow> None
    | Some ps \<Rightarrow>
        if length ps > 0 then
          Some (map (\<lambda>(px, py). ((px - rect_x r) * s + dx, (py - rect_y r) * s + dy)) ps)
        else None) = clip_polygon r s dx dy"
  by (simp add: clip_polygon_def case_prod_unfold split: option.splits)

lemma rect_frame_eq:
  "rect_frame draw img removeBackground bgColor customSize finalWidth finalHeight index r =
     (let s = rect_scale customSize finalWidth finalHeight r;
          dx = (finalWidth - rect_width r * s) / 2;
          dy = (finalHeight - rect_height r * s) / 2
      in \<lparr>frame_id = index,
          dataUrl = remove_if_enabled removeBackground bgColor
            (draw img (finalWidth, finalHeight) (clip_polygon r s dx dy)
               (rect_x r, rect_y r, rect_width r, rect_height r)
               (dx, dy, rect_width r * s, rect_height r * s)),
          frame_width = finalWidth, frame_height = finalHeight, sourceRect = r\<rparr>)"
  unfolding rect_frame_def Let_def clip_polygon_eq ..

lemma fold_max_size:
  "fold (\<lambda>rect (finalWidth, finalHeight).
           (if rect_width rect > finalWidth then rect_width rect else finalWidth,
            if rect_height rect > finalHeight then rect_height rect else finalHeight)) rects (a, b)
   = (Max (insert a (rect_width ` set rects)), Max (insert b (rect_height ` set rects)))"
proof -
  have "fold (\<lambda>rect (finalWidth, finalHeight).
           (if rect_width rect > finalWidth then rect_width rect else finalWidth,
            if rect_height rect > finalHeight then rect_height rect else finalHeight)) rects (a, b)
     = (fold max (map rect_width rects) a, fold max (map rect_height rects) b)"
    by (induction rects arbitrary: a b) (simp_all add: max_def not_less)
  moreover have "fold max ws a = Max (insert a (set ws))" for ws and a :: real
    using Max.set_eq_fold [of a ws] by simp
  ultimately show ?thesis by simp
qed

lemma uniform_size_auto:
  "uniform_size rects None =
     (max 1 (Max (insert 0 (rect_width ` set rects))), max 1 (Max (insert 0 (rect_height ` set rects))))"
  by (simp add: uniform_size_def fold_max_size)

lemma uniform_size_custom: "uniform_size rects (Some (W, H)) = (W, H)"
  by (simp add: uniform_size_def)

subsection \<open>The arithmetic of the machine\<close>

lemma sliceFromRects_ar_map:
  "sliceFromRects_ar ar draw img rects removeBackground backgroundColor customSize =
     map (\<lambda>(index, rect).
        rect_frame_ar ar draw img removeBackground (resolve_bgColor img removeBackground backgroundColor)
          customSize (fst (uniform_size_ar ar rects customSize))
          (snd (uniform_size_ar ar rects customSize)) index rect)
       (zip [0..<length rects] rects)"
proof -
  have "fold (\<lambda>(index, rect) frames. frames @ [g index rect]) xs init
      = init @ map (\<lambda>(index, rect). g index rect) xs"
    for g :: "nat \<Rightarrow> 'a nrect \<Rightarrow> 'a nframe" and xs init
    using fold_push [of "\<lambda>(index, rect). g index rect" xs init]
    by (simp add: case_prod_unfold)
  then show ?thesis
    by (simp add: sliceFromRects_ar_def Let_def case_prod_unfold)
qed

lemma sliceFromRects_ar_length [simp]:
  "length (sliceFromRects_ar ar draw img rects removeBackground backgroundColor customSize) = length rects"
  by (simp add: sliceFromRects_ar_map)

lemma sliceFromRects_ar_nth:
  "i < length rects \<Longrightarrow>
   sliceFromRects_ar ar draw img rects removeBackground backgroundColor customSize ! i =
     rect_frame_ar ar draw img removeBackground (resolve_bgColor img removeBackground backgroundColor)
       customSize (fst (uniform_size_ar ar rects customSize))
       (snd (uniform_size_ar ar rects customSize)) i (rects ! i)"
  by (simp add: sliceFromRects_ar_map)



text \<open>At the reals the function is \<open>sliceFromRects\<close> of the last section.\<close>

lemma uniform_size_exact:
  "uniform_size_ar exact rects customSize = uniform_size (map to_rect rects) customSize"
proof -
  have "fold (\<lambda>rect (finalWidth, finalHeight).
           (if nrect_width rect > finalWidth then nrect_width rect else finalWidth,
            if nrect_height rect > finalHeight then nrect_height rect else finalHeight)) rects s
     = fold (\<lambda>rect (finalWidth, finalHeight).
           (if rect_width rect > finalWidth then rect_width rect else finalWidth,
            if rect_height rect > finalHeight then rect_height rect else finalHeight))
         (map to_rect rects) s" for s :: "real \<times> real"
    by (induction rects arbitrary: s) (simp_all add: to_rect_def case_prod_unfold)
  then show ?thesis
    by (simp add: uniform_size_ar_def uniform_size_def exact_def split: option.splits)
qed

lemma rect_frame_exact:
  "to_frame (rect_frame_ar exact draw img removeBackground bgColor customSize fw fh i r) =
   rect_frame draw img removeBackground bgColor customSize fw fh i (to_rect r)"
  by (simp add: rect_frame_ar_def rect_frame_def rect_scale_ar_def rect_scale_def to_frame_def
      to_rect_def exact_def Let_def split: option.splits)

lemma sliceFromRects_exact:
  "map to_frame (sliceFromRects_ar exact draw img rects removeBackground backgroundColor customSize) =
   sliceFromRects draw img (map to_rect rects) removeBackground backgroundColor customSize"
proof (rule nth_equalityI)
  show "length (map to_frame (sliceFromRects_ar exact draw img rects removeBackground backgroundColor customSize)) =
    length (sliceFromRects draw img (map to_rect rects) removeBackground backgroundColor customSize)"
    by (simp add: sliceFromRects_map)
next
  fix i
  assume "i < length (map to_frame (sliceFromRects_ar exact draw img rects removeBackground backgroundColor customSize))"
  then have i: "i < length rects" by simp
  then show "map to_frame (sliceFromRects_ar exact draw img rects removeBackground backgroundColor customSize) ! i =
    sliceFromRects draw img (map to_rect rects) removeBackground backgroundColor customSize ! i"
    by (simp add: sliceFromRects_ar_nth sliceFromRects_map rect_frame_exact uniform_size_exact)
qed



text \<open>
  Claim C6. Under the automatic output size every frame of the batch has the width
  \<open>max 1 (Max widths)\<close> and the height \<open>max 1 (Max heights)\<close> over all rectangles of the batch,
  the scale of every rectangle is 1 (the destination has the size of the source crop), and a
  batch of one rectangle \<open>R\<close> with width and height at least 1 gives one frame of exactly
  \<open>R.width \<times> R.height\<close> holding the crop drawn unscaled at the origin.
\<close>
theorem composite_auto_size:
  "let frames = sliceFromRects draw img rects removeBackground backgroundColor None in
     length frames = length rects \<and>
     (\<forall>i < length rects.
        frame_width (frames ! i) = max 1 (Max (rect_width ` set rects)) \<and>
        frame_height (frames ! i) = max 1 (Max (rect_height ` set rects)) \<and>
        frame_id (frames ! i) = i \<and> sourceRect (frames ! i) = rects ! i \<and>
        rect_scale None (frame_width (frames ! i)) (frame_height (frames ! i)) (rects ! i) = 1 \<and>
        dataUrl (frames ! i) =
          (let r = rects ! i;
               destX = (frame_width (frames ! i) - rect_width r) / 2;
               destY = (frame_height (frames ! i) - rect_height r) / 2
           in remove_if_enabled removeBackground (resolve_bgColor img removeBackground backgroundColor)
                (draw img (frame_width (frames ! i), frame_height (frames ! i))
                   (clip_polygon r 1 destX destY)
                   (rect_x r, rect_y r, rect_width r, rect_height r)
                   (destX, destY, rect_width r, rect_height r)))) \<and>
     (\<forall>R. rects = [R] \<and> rect_width R \<ge> 1 \<and> rect_height R \<ge> 1 \<longrightarrow>
        length frames = 1 \<and> frame_width (frames ! 0) = rect_width R \<and>
        frame_height (frames ! 0) = rect_height R \<and>
        dataUrl (frames ! 0) =
          remove_if_enabled removeBackground (resolve_bgColor img removeBackground backgroundColor)
            (draw img (rect_width R, rect_height R) (clip_polygon R 1 0 0)
               (rect_x R, rect_y R, rect_width R, rect_height R)
               (0, 0, rect_width R, rect_height R)))"
proof -
  have sz: "uniform_size rects None =
      (max 1 (Max (rect_width ` set rects)), max 1 (Max (rect_height ` set rects)))"
    if "rects \<noteq> []"
    using that by (simp add: uniform_size_auto) (simp add: max_def)
  have ne: "rects \<noteq> []" if "i < length rects" for i using that by auto
  have one: "uniform_size [R] None = (rect_width R, rect_height R)"
    if "rect_width R \<ge> 1" "rect_height R \<ge> 1" for R
    using that by (simp add: uniform_size_auto max_def)
  show ?thesis
    unfolding Let_def
    by (intro conjI allI impI)
       (simp_all add: sliceFromRects_nth sz ne one rect_frame_eq rect_scale_def Let_def)
qed

theorem composite_auto_size_witness:
  "\<forall>draw.
   (0 :: nat) < length [wide_rect] \<and> rect_width wide_rect \<ge> 1 \<and> rect_height wide_rect \<ge> 1 \<and>
   length (sliceFromRects draw sheet4 [wide_rect] False None None) = 1 \<and>
   frame_width (sliceFromRects draw sheet4 [wide_rect] False None None ! 0) = 4 \<and>
   frame_height (sliceFromRects draw sheet4 [wide_rect] False None None ! 0) = 2 \<and>
   dataUrl (sliceFromRects draw sheet4 [wide_rect] False None None ! 0) =
     draw sheet4 (4, 2) None (0, 0, 4, 2) (0, 0, 4, 2)"
proof
  fix draw :: renderer
  have h: "(0 :: nat) < length [wide_rect]" "rect_width wide_rect \<ge> 1" "rect_height wide_rect \<ge> 1"
    by (simp_all add: wide_rect_def)
  from composite_auto_size [of draw sheet4 "[wide_rect]" False None, unfolded Let_def,
      THEN conjunct2, THEN conjunct2, THEN spec, of wide_rect] h
  show "(0 :: nat) < length [wide_rect] \<and> rect_width wide_rect \<ge> 1 \<and> rect_height wide_rect \<ge> 1 \<and>
   length (sliceFromRects draw sheet4 [wide_rect] False None None) = 1 \<and>
   frame_width (sliceFromRects draw sheet4 [wide_rect] False None None ! 0) = 4 \<and>
   frame_height (sliceFromRects draw sheet4 [wide_rect] False None None ! 0) = 2 \<and>
   dataUrl (sliceFromRects draw sheet4 [wide_rect] False None None ! 0) =
     draw sheet4 (4, 2) None (0, 0, 4, 2) (0, 0, 4, 2)"
    by (simp add: wide_rect_def clip_polygon_def remove_if_enabled_def resolve_bgColor_def)
qed

lemma concat_rows_length:
  "length (concat (map (\<lambda>r. map (f r) [0..<cols]) [0..<rows])) = rows * cols"
  by (induction rows) simp_all

lemma concat_rows_nth:
  "k < rows * cols \<Longrightarrow>
   concat (map (\<lambda>r. map (f r) [0..<cols]) [0..<rows]) ! k = f (k div cols) (k mod cols)"
proof (induction rows)
  case 0
  then show ?case by simp
next
  case (Suc rows)
  show ?case
  proof (cases "k < rows * cols")
    case True
    then show ?thesis using Suc.IH by (simp add: nth_append concat_rows_length)
  next
    case False
    then have ge: "rows * cols \<le> k" by simp
    have lt: "k - rows * cols < cols" using Suc.prems ge by simp
    have c: "0 < cols" using lt by simp
    have "k = rows * cols + (k - rows * cols)" using ge by simp
    then have d: "k div cols = rows" "k mod cols = k - rows * cols"
      using lt c by (metis div_mult_self3 div_less add.left_neutral add.commute less_numeral_extra(3),
        metis mod_mult_self3 mod_less add.commute)
    show ?thesis using False lt by (simp add: nth_append concat_rows_length d)
  qed
qed

lemma grid_rects_length: "length (grid_rects img rows cols) = rows * cols"
  by (simp add: grid_rects_def concat_rows_length)

lemma grid_rects_nth:
  "k < rows * cols \<Longrightarrow>
   grid_rects img rows cols ! k =
     \<lparr>rect_x = real (k mod cols * (img_width img div cols)),
      rect_y = real (k div cols * (img_height img div rows)),
      rect_width = real (img_width img div cols),
      rect_height = real (img_height img div rows),
      rect_path = None\<rparr>"
  unfolding grid_rects_def by (subst concat_rows_nth) simp_all

text \<open>The frame \<^verbatim>\<open>sliceSpritesheet\<close> pushes for cell \<open>(r, c)\<close> when the counter is \<open>frameId\<close>.\<close>

lemma grid_cell_push:
  "grid_cell draw img removeBackground bgColor customSize finalWidth finalHeight gw gh r c (frameId, frames) =
     (Suc frameId,
      frames @ [hd (snd (grid_cell draw img removeBackground bgColor customSize finalWidth finalHeight
                           gw gh r c (frameId, [])))])"
  by (simp add: grid_cell_def Let_def)

lemma fold_row:
  "fold (grid_cell draw img removeBackground bgColor customSize finalWidth finalHeight gw gh r)
        [0..<n] (frameId, frames) =
     (frameId + n,
      frames @ map (\<lambda>c. hd (snd (grid_cell draw img removeBackground bgColor customSize finalWidth
                                     finalHeight gw gh r c (frameId + c, [])))) [0..<n])"
proof (induction n)
  case 0
  then show ?case by simp
next
  case (Suc n)
  show ?case
    by (simp add: Suc.IH)
       (subst grid_cell_push, simp)
qed

lemma fold_rows:
  "fold (\<lambda>r. fold (grid_cell draw img removeBackground bgColor customSize finalWidth finalHeight gw gh r)
                [0..<cols]) [0..<m] (0, []) =
     (m * cols,
      concat (map (\<lambda>r. map (\<lambda>c. hd (snd (grid_cell draw img removeBackground bgColor customSize
                                              finalWidth finalHeight gw gh r c (r * cols + c, []))))
                          [0..<cols]) [0..<m]))"
proof (induction m)
  case 0
  then show ?case by simp
next
  case (Suc m)
  show ?case by (simp add: Suc.IH fold_row)
qed

lemma grid_rects_sizes:
  assumes "rows \<ge> 1" "cols \<ge> 1"
  shows "rect_width ` set (grid_rects img rows cols) = {real (img_width img div cols)}"
    and "rect_height ` set (grid_rects img rows cols) = {real (img_height img div rows)}"
proof -
  have "0 \<in> {0..<rows}" "0 \<in> {0..<cols}" using assms by simp_all
  then show "rect_width ` set (grid_rects img rows cols) = {real (img_width img div cols)}"
    and "rect_height ` set (grid_rects img rows cols) = {real (img_height img div rows)}"
    unfolding grid_rects_def by (auto simp: image_iff intro!: bexI)
qed

lemma uniform_size_grid:
  assumes "rows \<ge> 1" "cols \<ge> 1" "img_width img div cols \<ge> 1" "img_height img div rows \<ge> 1"
  shows "uniform_size (grid_rects img rows cols) customSize =
    (case customSize of Some (w, h) \<Rightarrow> w | None \<Rightarrow> real (img_width img div cols),
     case customSize of Some (w, h) \<Rightarrow> h | None \<Rightarrow> real (img_height img div rows))"
proof (cases customSize)
  case None
  have "max 1 (real (img_width img div cols)) = real (img_width img div cols)"
    "max 1 (real (img_height img div rows)) = real (img_height img div rows)"
    using assms(3,4) by (simp_all add: max_def)
  then show ?thesis
    using None by (simp add: uniform_size_auto grid_rects_sizes [OF assms(1,2)])
next
  case (Some a)
  then show ?thesis by (cases a) (simp add: uniform_size_custom)
qed

text \<open>
  Claim C7. For \<open>rows, cols \<ge> 1\<close> with cell width \<open>width div cols \<ge> 1\<close> and cell height
  \<open>height div rows \<ge> 1\<close>, and for every renderer, background option and output size,
  \<^verbatim>\<open>sliceSpritesheet\<close> returns exactly the frames \<^verbatim>\<open>sliceFromRects\<close> returns on the grid
  rectangles \<open>{c * cellWidth, r * cellHeight, cellWidth, cellHeight}\<close> listed row by row without
  paths, and the ids are \<open>0, ..., rows * cols - 1\<close> in order.
\<close>
theorem sliceGrid_refines_composite:
  assumes "rows \<ge> 1" and "cols \<ge> 1"
    and "img_width img div cols \<ge> 1" and "img_height img div rows \<ge> 1"
  shows "sliceSpritesheet draw img rows cols removeBackground backgroundColor customSize =
           sliceFromRects draw img (grid_rects img rows cols) removeBackground backgroundColor customSize \<and>
         map frame_id (sliceSpritesheet draw img rows cols removeBackground backgroundColor customSize) =
           [0..<rows * cols]"
proof -
  let ?gw = "img_width img div cols" and ?gh = "img_height img div rows"
  let ?fw = "case customSize of Some (w, h) \<Rightarrow> w | None \<Rightarrow> real ?gw"
  let ?fh = "case customSize of Some (w, h) \<Rightarrow> h | None \<Rightarrow> real ?gh"
  let ?bg = "resolve_bgColor img removeBackground backgroundColor"
  let ?cell = "\<lambda>r c. hd (snd (grid_cell draw img removeBackground ?bg customSize ?fw ?fh ?gw ?gh r c
      (r * cols + c, [])))"
  let ?L = "sliceSpritesheet draw img rows cols removeBackground backgroundColor customSize"
  let ?R = "sliceFromRects draw img (grid_rects img rows cols) removeBackground backgroundColor customSize"
  have L: "?L = concat (map (\<lambda>r. map (?cell r) [0..<cols]) [0..<rows])"
    using assms(3,4) by (simp add: sliceSpritesheet_def Let_def fold_rows)
  have lenL: "length ?L = rows * cols" unfolding L by (rule concat_rows_length)
  have nthL: "?L ! k = ?cell (k div cols) (k mod cols)" if "k < rows * cols" for k
    unfolding L using that by (rule concat_rows_nth)
  have idL: "frame_id (?L ! k) = k" if "k < rows * cols" for k
    by (simp add: nthL [OF that] grid_cell_def Let_def)
  have eq: "?L ! k = ?R ! k" if k: "k < rows * cols" for k
  proof -
    have "?R ! k = rect_frame draw img removeBackground ?bg customSize ?fw ?fh k
        (grid_rects img rows cols ! k)"
      using k by (simp add: sliceFromRects_nth grid_rects_length uniform_size_grid [OF assms])
    also have "\<dots> = ?cell (k div cols) (k mod cols)"
      by (cases customSize)
         (simp_all add: grid_rects_nth [OF k] rect_frame_eq rect_scale_def clip_polygon_def
            grid_cell_def Let_def)
    finally show ?thesis using nthL [OF k] by simp
  qed
  have "?L = ?R"
    by (rule nth_equalityI) (simp_all add: lenL grid_rects_length eq)
  moreover have "map frame_id ?L = [0..<rows * cols]"
    by (rule nth_equalityI) (simp_all add: lenL idL)
  ultimately show ?thesis by simp
qed

theorem sliceGrid_refines_composite_witness:
  "\<forall>draw.
   (2 :: nat) \<ge> 1 \<and> img_width sheet4 div 2 \<ge> 1 \<and> img_height sheet4 div 2 \<ge> 1 \<and>
   sliceSpritesheet draw sheet4 2 2 False None None =
     sliceFromRects draw sheet4 (grid_rects sheet4 2 2) False None None \<and>
   map frame_id (sliceSpritesheet draw sheet4 2 2 False None None) = [0..<2 * 2] \<and>
   map (\<lambda>f. (frame_id f, rect_x (sourceRect f), rect_y (sourceRect f), frame_width f, frame_height f))
     (sliceSpritesheet draw sheet4 2 2 False None None) =
     [(0, 0, 0, 2, 2), (1, 2, 0, 2, 2), (2, 0, 2, 2, 2), (3, 2, 2, 2, 2)]"
proof
  fix draw :: renderer
  have h: "(2 :: nat) \<ge> 1" "img_width sheet4 div 2 \<ge> 1" "img_height sheet4 div 2 \<ge> 1"
    by (simp_all add: sheet4_def)
  have e: "[0..<2] = [0, 1]" by (simp add: upt_rec)
  have "map (\<lambda>f. (frame_id f, rect_x (sourceRect f), rect_y (sourceRect f), frame_width f, frame_height f))
     (sliceSpritesheet draw sheet4 2 2 False None None) =
     [(0, 0, 0, 2, 2), (1, 2, 0, 2, 2), (2, 0, 2, 2, 2), (3, 2, 2, 2, 2)]"
    by (simp add: sliceSpritesheet_def grid_cell_def sheet4_def Let_def e)
  with sliceGrid_refines_composite [OF h(1) h(1) h(2) h(3), of draw False None None] h
  show "(2 :: nat) \<ge> 1 \<and> img_width sheet4 div 2 \<ge> 1 \<and> img_height sheet4 div 2 \<ge> 1 \<and>
   sliceSpritesheet draw sheet4 2 2 False None None =
     sliceFromRects draw sheet4 (grid_rects sheet4 2 2) False None None \<and>
   map frame_id (sliceSpritesheet draw sheet4 2 2 False None None) = [0..<2 * 2] \<and>
   map (\<lambda>f. (frame_id f, rect_x (sourceRect f), rect_y (sourceRect f), frame_width f, frame_height f))
     (sliceSpritesheet draw sheet4 2 2 False None None) =
     [(0, 0, 0, 2, 2), (1, 2, 0, 2, 2), (2, 0, 2, 2, 2), (3, 2, 2, 2, 2)]"
    by blast
qed

section \<open>RegionDetector: proofs\<close>

subsection \<open>Bounding boxes\<close>

text \<open>The box of a finite, non-empty pixel set holds every pixel of the set and touches the set on all four sides.\<close>

lemma bounding_rect_tight:
  assumes "finite C" "C \<noteq> {}"
  shows "\<forall>p\<in>C. rect_x (bounding_rect C) \<le> real (fst p) \<and>
            real (fst p) \<le> rect_x (bounding_rect C) + rect_width (bounding_rect C) - 1 \<and>
            rect_y (bounding_rect C) \<le> real (snd p) \<and>
            real (snd p) \<le> rect_y (bounding_rect C) + rect_height (bounding_rect C) - 1"
    and "\<exists>p\<in>C. real (fst p) = rect_x (bounding_rect C)"
    and "\<exists>p\<in>C. real (fst p) = rect_x (bounding_rect C) + rect_width (bounding_rect C) - 1"
    and "\<exists>p\<in>C. real (snd p) = rect_y (bounding_rect C)"
    and "\<exists>p\<in>C. real (snd p) = rect_y (bounding_rect C) + rect_height (bounding_rect C) - 1"
proof -
  have f: "finite (fst ` C)" "finite (snd ` C)" "fst ` C \<noteq> {}" "snd ` C \<noteq> {}"
    using assms by simp_all
  show "\<forall>p\<in>C. rect_x (bounding_rect C) \<le> real (fst p) \<and>
            real (fst p) \<le> rect_x (bounding_rect C) + rect_width (bounding_rect C) - 1 \<and>
            rect_y (bounding_rect C) \<le> real (snd p) \<and>
            real (snd p) \<le> rect_y (bounding_rect C) + rect_height (bounding_rect C) - 1"
    using f(1,2) by (simp add: bounding_rect_def)
  have "Min (fst ` C) \<in> fst ` C" "Max (fst ` C) \<in> fst ` C"
    "Min (snd ` C) \<in> snd ` C" "Max (snd ` C) \<in> snd ` C"
    using f by (blast intro: Min_in Max_in)+
  then show "\<exists>p\<in>C. real (fst p) = rect_x (bounding_rect C)"
    and "\<exists>p\<in>C. real (fst p) = rect_x (bounding_rect C) + rect_width (bounding_rect C) - 1"
    and "\<exists>p\<in>C. real (snd p) = rect_y (bounding_rect C)"
    and "\<exists>p\<in>C. real (snd p) = rect_y (bounding_rect C) + rect_height (bounding_rect C) - 1"
    by (simp_all add: bounding_rect_def) force+
qed

subsection \<open>Components\<close>

lemma adjacent4_sym: "adjacent4 p q \<Longrightarrow> adjacent4 q p"
  by (auto simp: adjacent4_def)

lemma sym_linked: "sym (linked ok)"
  by (auto simp: sym_def linked_def adjacent4_sym)

lemma linked_rtrancl_sym: "(p, q) \<in> (linked ok)\<^sup>* \<Longrightarrow> (q, p) \<in> (linked ok)\<^sup>*"
  by (rule symD [OF sym_rtrancl [OF sym_linked]])

lemma linked_rtrancl_ok: "(p, q) \<in> (linked ok)\<^sup>* \<Longrightarrow> ok p \<Longrightarrow> ok q"
  by (induction rule: rtrancl_induct) (auto simp: linked_def)

lemma component_self: "p \<in> component_of img p"
  by (simp add: component_of_def)

lemma component_opaque: "q \<in> component_of img p \<Longrightarrow> opaque img p \<Longrightarrow> opaque img q"
  using linked_rtrancl_ok [of p q "opaque img"] by (simp add: component_of_def)

lemma component_eq: "q \<in> component_of img p \<Longrightarrow> component_of img q = component_of img p"
proof -
  assume "q \<in> component_of img p"
  then have pq: "(p, q) \<in> (linked (opaque img))\<^sup>*" by (simp add: component_of_def)
  then have qp: "(q, p) \<in> (linked (opaque img))\<^sup>*" by (rule linked_rtrancl_sym)
  show ?thesis
    unfolding component_of_def using pq qp by (blast intro: rtrancl_trans)
qed

lemma components_overlap:
  assumes "C \<in> components img" "D \<in> components img" "p \<in> C" "p \<in> D"
  shows "C = D"
proof -
  obtain a b where "C = component_of img a" "D = component_of img b"
    using assms(1,2) by (auto simp: components_def)
  then show ?thesis using assms(3,4) component_eq by metis
qed

lemma component_in_components: "opaque img p \<Longrightarrow> component_of img p \<in> components img"
  by (simp add: components_def)

lemma finite_components: "finite (components img)"
proof -
  have "{p. opaque img p} \<subseteq> {p. in_image img p}" by (auto simp: opaque_def)
  then have "finite {p. opaque img p}" using finite_in_image by (rule finite_subset)
  then show ?thesis by (simp add: components_def)
qed

lemma component_subset: "opaque img p \<Longrightarrow> component_of img p \<subseteq> {q. in_image img q}"
proof
  fix q assume "opaque img p" "q \<in> component_of img p"
  then have "opaque img q" by (rule component_opaque [rotated])
  then show "q \<in> {q. in_image img q}" by (simp add: opaque_def)
qed

lemma grown_linked:
  assumes s: "in_image img s" "ok s"
  shows "grown img ok s = {p. (s, p) \<in> (linked (\<lambda>p. in_image img p \<and> ok p))\<^sup>*}"
proof (intro set_eqI iffI)
  fix p assume "p \<in> grown img ok s"
  then have "(s, p) \<in> {(a, b). adjacent4 a b \<and> in_image img b \<and> ok b}\<^sup>*"
    by (simp add: grown_def)
  then have "(s, p) \<in> (linked (\<lambda>p. in_image img p \<and> ok p))\<^sup>* \<and> in_image img p \<and> ok p"
  proof (induction rule: rtrancl_induct)
    case base
    then show ?case using s by simp
  next
    case (step a b)
    then have "(a, b) \<in> linked (\<lambda>p. in_image img p \<and> ok p)" by (simp add: linked_def)
    then show ?case using step by (auto intro: rtrancl_into_rtrancl)
  qed
  then show "p \<in> {p. (s, p) \<in> (linked (\<lambda>p. in_image img p \<and> ok p))\<^sup>*}" by simp
next
  fix p assume "p \<in> {p. (s, p) \<in> (linked (\<lambda>p. in_image img p \<and> ok p))\<^sup>*}"
  then have "(s, p) \<in> (linked (\<lambda>p. in_image img p \<and> ok p))\<^sup>*" by simp
  then show "p \<in> grown img ok s"
  proof (induction rule: rtrancl_induct)
    case base
    then show ?case by (rule grown_seed)
  next
    case (step a b)
    then show ?case by (auto simp: linked_def intro: grown_step)
  qed
qed

lemma opaque_ds_ok: "opaque img = (\<lambda>p. in_image img p \<and> ds_ok img p)"
  by (auto simp: opaque_def ds_ok_def alphaThreshold_def fun_eq_iff)

lemma grown_component:
  "opaque img s \<Longrightarrow> grown img (ds_ok img) s = component_of img s"
  using grown_linked [of img s "ds_ok img"]
  by (simp add: component_of_def opaque_ds_ok)

subsection \<open>The flood fill of \<^verbatim>\<open>detectSprites\<close>\<close>

lemma ds_visit_gen: "ds_visit img n s = gen_visit img (ds_ok img) n s"
proof -
  obtain nx ny q v where n: "n = (nx, ny)" and s: "s = (q, v)" by (cases n, cases s)
  show ?thesis
  proof (cases "nx \<ge> 0 \<and> nx < int (img_width img) \<and> ny \<ge> 0 \<and> ny < int (img_height img)")
    case True
    then have i: "nat (ny * int (img_width img) + nx) = pixel_index img (nat nx, nat ny)"
      by (simp add: nat_index)
    show ?thesis
      using True unfolding ds_visit_def gen_visit_def n s
      by (simp add: i Let_def ds_ok_def channel_def)
  next
    case False
    then show ?thesis unfolding ds_visit_def gen_visit_def n s by auto
  qed
qed

lemma ds_step_eq:
  "ds_step img (c # q, v, minX, maxX, minY, maxY) =
     (case fold (gen_visit img (ds_ok img)) (neighbors (c mod img_width img) (c div img_width img)) (q, v)
      of (q', v') \<Rightarrow>
        (q', v', min (c mod img_width img) minX, max (c mod img_width img) maxX,
         min (c div img_width img) minY, max (c div img_width img) maxY))"
proof -
  have "ds_visit img = gen_visit img (ds_ok img)"
    by (intro ext) (rule ds_visit_gen)
  then show ?thesis
    by (auto simp: Let_def min_def max_def split: prod.splits)
qed

lemma flood_inv_finite:
  assumes "flood_inv img ok V0 s P (q, v)"
  shows "finite P" and "P \<subseteq> {p. in_image img p}"
proof -
  have "P \<subseteq> marked img v" using assms by (auto simp: flood_inv_def)
  then show "P \<subseteq> {p. in_image img p}" by (auto dest: marked_in_image)
  then show "finite P" using finite_in_image by (rule finite_subset)
qed

lemma ds_step_inv:
  assumes "ds_inv img V0 s st" and "case st of (q, v, minX, maxX, minY, maxY) \<Rightarrow> q \<noteq> []"
  shows "ds_inv img V0 s (ds_step img st) \<and> ds_measure (ds_step img st) < ds_measure st"
proof -
  obtain c q v minX maxX minY maxY where st: "st = (c # q, v, minX, maxX, minY, maxY)"
    using assms(2) by (cases st) (auto simp: neq_Nil_conv)
  obtain P where inv: "flood_inv img (ds_ok img) V0 s P (c # q, v)"
    and mm: "minX = Min (fst ` insert s P)" "maxX = Max (fst ` insert s P)"
      "minY = Min (snd ` insert s P)" "maxY = Max (snd ` insert s P)"
    using assms(1) by (auto simp: ds_inv_def st)
  obtain q' v' where g: "fold (gen_visit img (ds_ok img))
      (neighbors (c mod img_width img) (c div img_width img)) (q, v) = (q', v')"
    by (cases "fold (gen_visit img (ds_ok img))
      (neighbors (c mod img_width img) (c div img_width img)) (q, v)")
  have r: "ds_step img st = (q', v', min (c mod img_width img) minX, max (c mod img_width img) maxX,
         min (c div img_width img) minY, max (c div img_width img) maxY)"
    unfolding st ds_step_eq g by simp
  have fin: "finite P" using flood_inv_finite(1) [OF inv] .
  have e: "fst ` insert s (insert (pix img c) P) = insert (c mod img_width img) (fst ` insert s P)"
    "snd ` insert s (insert (pix img c) P) = insert (c div img_width img) (snd ` insert s P)"
    by (auto simp: pix_def)
  have "Min (fst ` insert s (insert (pix img c) P)) = min (c mod img_width img) minX"
    "Max (fst ` insert s (insert (pix img c) P)) = max (c mod img_width img) maxX"
    "Min (snd ` insert s (insert (pix img c) P)) = min (c div img_width img) minY"
    "Max (snd ` insert s (insert (pix img c) P)) = max (c div img_width img) maxY"
    unfolding e mm using fin by (simp_all del: image_insert)
  then have "ds_inv img V0 s (ds_step img st)"
    unfolding r ds_inv_def using flood_inv_step(1) [OF inv g] by auto
  moreover have "ds_measure (ds_step img st) < ds_measure st"
    unfolding r using flood_inv_step(2) [OF inv g] by (simp add: ds_measure_def st)
  ultimately show ?thesis by simp
qed

lemma ds_loop_total:
  assumes inv: "ds_inv img V0 s st" and dis: "grown img (ds_ok img) s \<inter> V0 = {}"
  shows "\<exists>v. ds_loop img st =
        Some ([], v, Min (fst ` grown img (ds_ok img) s), Max (fst ` grown img (ds_ok img) s),
              Min (snd ` grown img (ds_ok img) s), Max (snd ` grown img (ds_ok img) s))
    \<and> length v = img_width img * img_height img \<and> set v \<subseteq> {0, 1}
    \<and> marked img v = V0 \<union> grown img (ds_ok img) s"
proof -
  let ?b = "(\<lambda>(queue, visited, minX, maxX, minY, maxY). queue \<noteq> []) :: ds_state \<Rightarrow> bool"
  let ?c = "ds_step img"
  have "\<exists>t. while_option ?b ?c st = Some t"
  proof (rule measure_while_option_Some [where P = "ds_inv img V0 s" and f = ds_measure])
    fix st' assume "ds_inv img V0 s st'" "?b st'"
    then show "ds_inv img V0 s (?c st') \<and> ds_measure (?c st') < ds_measure st'"
      using ds_step_inv [of img V0 s st'] by (auto split: prod.splits)
  qed (rule inv)
  then obtain t where t: "while_option ?b ?c st = Some t" ..
  have "ds_inv img V0 s t"
  proof (rule while_option_rule [where P = "ds_inv img V0 s", OF _ t inv])
    fix st' assume "ds_inv img V0 s st'" "?b st'"
    then show "ds_inv img V0 s (?c st')"
      using ds_step_inv [of img V0 s st'] by (auto split: prod.splits)
  qed
  moreover have "\<not> ?b t" using while_option_stop [OF t] .
  ultimately obtain v minX maxX minY maxY P where tv: "t = ([], v, minX, maxX, minY, maxY)"
    and fi: "flood_inv img (ds_ok img) V0 s P ([], v)"
    and mm: "minX = Min (fst ` insert s P)" "maxX = Max (fst ` insert s P)"
      "minY = Min (snd ` insert s P)" "maxY = Max (snd ` insert s P)"
    by (cases t) (auto simp: ds_inv_def)
  have P: "P = grown img (ds_ok img) s" and m: "marked img v = V0 \<union> grown img (ds_ok img) s"
    using flood_inv_final [OF fi dis] by simp_all
  have "insert s P = P" using P grown_seed by auto
  then have "t = ([], v, Min (fst ` grown img (ds_ok img) s), Max (fst ` grown img (ds_ok img) s),
              Min (snd ` grown img (ds_ok img) s), Max (snd ` grown img (ds_ok img) s))"
    using tv mm P by simp
  moreover have "length v = img_width img * img_height img" "set v \<subseteq> {0, 1}"
    using fi by (simp_all add: flood_inv_def)
  ultimately show ?thesis using t m by (simp add: ds_loop_def)
qed

subsection \<open>The scan of \<^verbatim>\<open>detectSprites\<close>\<close>

lemma pushed_rect:
  assumes "C \<noteq> {}" "C \<subseteq> {p. in_image img p}"
  shows "\<lparr>rect_x = max 0 (real (Min (fst ` C))),
          rect_y = max 0 (real (Min (snd ` C))),
          rect_width = min (real (img_width img) - real (Min (fst ` C)))
                         (real (Max (fst ` C)) - real (Min (fst ` C)) + 1),
          rect_height = min (real (img_height img) - real (Min (snd ` C)))
                          (real (Max (snd ` C)) - real (Min (snd ` C)) + 1),
          rect_path = None\<rparr> = bounding_rect C"
proof -
  have fin: "finite C" using assms(2) finite_in_image by (rule finite_subset)
  have "Max (fst ` C) \<in> fst ` C" "Max (snd ` C) \<in> snd ` C"
    using fin assms(1) by (simp_all add: Max_in)
  then have "Max (fst ` C) < img_width img" "Max (snd ` C) < img_height img"
    using assms(2) by (auto simp: in_image_def)
  then have "real (Max (fst ` C)) + 1 \<le> real (img_width img)"
    "real (Max (snd ` C)) + 1 \<le> real (img_height img)"
    by linarith+
  then show ?thesis by (simp add: bounding_rect_def min_def)
qed

lemma ds_pixel_eq:
  "ds_pixel img y x (v, rects) =
     (if v ! pixel_index img (x, y) \<noteq> 0 then Some (v, rects)
      else if channel img (x, y) 3 > alphaThreshold then
        (case ds_loop img ([pixel_index img (x, y)], v[pixel_index img (x, y) := 1], x, x, y, y) of
           None \<Rightarrow> None
         | Some (queue, visited, minX, maxX, minY, maxY) \<Rightarrow>
             Some (visited,
                   rects @ [\<lparr>rect_x = max 0 (real minX),
                             rect_y = max 0 (real minY),
                             rect_width = min (real (img_width img) - real minX) (real maxX - real minX + 1),
                             rect_height = min (real (img_height img) - real minY) (real maxY - real minY + 1),
                             rect_path = None\<rparr>]))
      else Some (v, rects))"
  unfolding ds_pixel_def channel_def pixel_index_def Let_def by simp

lemma ds_pixel_inv:
  assumes inv: "scan_inv img (y * img_width img + x) st"
    and x: "x < img_width img" and y: "y < img_height img"
  shows "\<exists>st'. ds_pixel img y x st = Some st' \<and> scan_inv img (Suc (y * img_width img + x)) st'"
proof -
  let ?n = "y * img_width img + x"
  let ?s = "(x, y)"
  obtain v rects where st: "st = (v, rects)" by (cases st)
  obtain S where len: "length v = img_width img * img_height img" and bits: "set v \<subseteq> {0, 1}"
    and S: "S \<subseteq> components img" "marked img v = \<Union>S"
      "mset rects = image_mset bounding_rect (mset_set S)"
    and seen: "\<And>p. opaque img p \<Longrightarrow> pixel_index img p < ?n \<Longrightarrow> p \<in> marked img v"
    using inv by (auto simp: scan_inv_def st)
  have im: "in_image img ?s" using x y by (simp add: in_image_def)
  have idx: "pixel_index img ?s = ?n" by (simp add: pixel_index_def)
  have here: "p = ?s" if "opaque img p" "pixel_index img p = ?n" for p
    using that im idx pixel_index_inj [of img p ?s] by (simp add: opaque_def)
  consider (visited) "v ! ?n \<noteq> 0"
    | (island) "v ! ?n = 0" "channel img ?s 3 > alphaThreshold"
    | (clear) "v ! ?n = 0" "\<not> channel img ?s 3 > alphaThreshold" by blast
  then show ?thesis
  proof cases
    case visited
    then have r: "ds_pixel img y x st = Some st" by (simp add: ds_pixel_eq st idx)
    have "?s \<in> marked img v" using visited im idx by (simp add: marked_def)
    then have "p \<in> marked img v" if "opaque img p" "pixel_index img p < Suc ?n" for p
      using that seen [of p] here [of p] by (cases "pixel_index img p = ?n") auto
    then have "scan_inv img (Suc ?n) st"
      using len bits S unfolding scan_inv_def st by auto
    then show ?thesis using r by simp
  next
    case clear
    then have r: "ds_pixel img y x st = Some st" by (simp add: ds_pixel_eq st idx)
    have "\<not> opaque img ?s" using clear by (simp add: opaque_def alphaThreshold_def)
    then have "p \<in> marked img v" if "opaque img p" "pixel_index img p < Suc ?n" for p
      using that seen [of p] here [of p] by (cases "pixel_index img p = ?n") auto
    then have "scan_inv img (Suc ?n) st"
      using len bits S unfolding scan_inv_def st by auto
    then show ?thesis using r by simp
  next
    case island
    let ?G = "component_of img ?s"
    have op: "opaque img ?s" using island im by (simp add: opaque_def alphaThreshold_def)
    have G: "grown img (ds_ok img) ?s = ?G" using op by (rule grown_component)
    have Gc: "?G \<in> components img" using op by (rule component_in_components)
    have sG: "?s \<in> ?G" by (rule component_self)
    have ns: "?s \<notin> marked img v" using island by (simp add: marked_def idx)
    have GS: "?G \<notin> S" using sG ns S(2) by auto
    have dis: "?G \<inter> marked img v = {}"
    proof (rule ccontr)
      assume "?G \<inter> marked img v \<noteq> {}"
      then obtain p C where "p \<in> ?G" "p \<in> C" "C \<in> S" using S(2) by auto
      then have "C = ?G" using components_overlap [of C img ?G p] S(1) Gc by auto
      then show False using \<open>C \<in> S\<close> GS by simp
    qed
    let ?v0 = "v[?n := 1]"
    have "set ?v0 \<subseteq> {0, 1}" using bits set_update_subset_insert [of v ?n 1] by auto
    moreover have "marked img ?v0 = insert ?s (marked img v)"
      using marked_update [OF len im] by (simp add: idx)
    moreover have "pix img ?n = ?s" using pix_pixel_index [OF im] by (simp add: idx)
    moreover have "?n < img_width img * img_height img" using pixel_index_lt [OF im] by (simp add: idx)
    ultimately have "flood_inv img (ds_ok img) (marked img v) ?s {} ([?n], ?v0)"
      using len by (simp add: flood_inv_def grown_seed)
    then have "ds_inv img (marked img v) ?s ([?n], ?v0, x, x, y, y)"
      unfolding ds_inv_def by auto
    from ds_loop_total [OF this] dis obtain v' where
      loop: "ds_loop img ([?n], ?v0, x, x, y, y) =
        Some ([], v', Min (fst ` ?G), Max (fst ` ?G), Min (snd ` ?G), Max (snd ` ?G))"
      and len': "length v' = img_width img * img_height img" and bits': "set v' \<subseteq> {0, 1}"
      and m': "marked img v' = marked img v \<union> ?G"
      unfolding G by blast
    have rect: "\<lparr>rect_x = max 0 (real (Min (fst ` ?G))),
          rect_y = max 0 (real (Min (snd ` ?G))),
          rect_width = min (real (img_width img) - real (Min (fst ` ?G)))
                         (real (Max (fst ` ?G)) - real (Min (fst ` ?G)) + 1),
          rect_height = min (real (img_height img) - real (Min (snd ` ?G)))
                          (real (Max (snd ` ?G)) - real (Min (snd ` ?G)) + 1),
          rect_path = None\<rparr> = bounding_rect ?G"
      using sG component_subset [OF op] by (intro pushed_rect) auto
    have r: "ds_pixel img y x st = Some (v', rects @ [bounding_rect ?G])"
      using island rect by (simp add: ds_pixel_eq st idx loop)
    have finS: "finite S" using S(1) finite_components by (rule finite_subset)
    have "insert ?G S \<subseteq> components img" using S(1) Gc by simp
    moreover have "marked img v' = \<Union>(insert ?G S)" using m' S(2) by auto
    moreover have "mset (rects @ [bounding_rect ?G]) = image_mset bounding_rect (mset_set (insert ?G S))"
      using finS GS S(3) by simp
    moreover have "p \<in> marked img v'" if "opaque img p" "pixel_index img p < Suc ?n" for p
      using that seen [of p] here [of p] sG m' by (cases "pixel_index img p = ?n") auto
    ultimately have "scan_inv img (Suc ?n) (v', rects @ [bounding_rect ?G])"
      using len' bits' unfolding scan_inv_def by blast
    then show ?thesis using r by simp
  qed
qed

lemma opt_fold_snoc:
  "opt_fold f (xs @ [a]) s = (case opt_fold f xs s of None \<Rightarrow> None | Some s' \<Rightarrow> f a s')"
  by (induction xs arbitrary: s) (auto split: option.splits)

lemma opt_fold_upt:
  assumes "I 0 s" and "\<And>i s. i < n \<Longrightarrow> I i s \<Longrightarrow> \<exists>s'. f i s = Some s' \<and> I (Suc i) s'"
  shows "\<exists>s'. opt_fold f [0..<n] s = Some s' \<and> I n s'"
  using assms(2)
proof (induction n)
  case 0
  then show ?case using assms(1) by simp
next
  case (Suc n)
  then obtain s1 where s1: "opt_fold f [0..<n] s = Some s1" "I n s1" by fastforce
  from Suc.prems [of n s1] s1(2) obtain s2 where "f n s1 = Some s2" "I (Suc n) s2" by auto
  then show ?case using s1(1) by (simp add: opt_fold_snoc)
qed

lemma ds_row_inv:
  assumes "scan_inv img (y * img_width img) st" and "y < img_height img"
  shows "\<exists>st'. opt_fold (ds_pixel img y) [0..<img_width img] st = Some st'
    \<and> scan_inv img (Suc y * img_width img) st'"
proof -
  have "\<exists>st'. opt_fold (ds_pixel img y) [0..<img_width img] st = Some st'
      \<and> scan_inv img (y * img_width img + img_width img) st'"
    by (rule opt_fold_upt [where I = "\<lambda>x. scan_inv img (y * img_width img + x)"])
       (use assms ds_pixel_inv in auto)
  then show ?thesis by (simp add: add.commute)
qed

lemma scan_inv_init: "scan_inv img 0 (replicate (img_width img * img_height img) 0, [])"
proof -
  have "{} \<subseteq> components img \<and> marked img (replicate (img_width img * img_height img) 0) = \<Union>{}
      \<and> mset [] = image_mset bounding_rect (mset_set {})"
    by (simp add: marked_replicate)
  then show ?thesis unfolding scan_inv_def by (auto simp del: mset.simps)
qed

lemma scan_inv_final:
  assumes "scan_inv img (img_height img * img_width img) (v, rects)"
  shows "mset rects = image_mset bounding_rect (mset_set (components img))"
proof -
  obtain S where S: "S \<subseteq> components img" "marked img v = \<Union>S"
      "mset rects = image_mset bounding_rect (mset_set S)"
    and seen: "\<And>p. opaque img p \<Longrightarrow> pixel_index img p < img_height img * img_width img \<Longrightarrow> p \<in> marked img v"
    using assms by (auto simp: scan_inv_def)
  have "components img \<subseteq> S"
  proof
    fix C assume C: "C \<in> components img"
    then obtain p where p: "opaque img p" "C = component_of img p" by (auto simp: components_def)
    have "pixel_index img p < img_height img * img_width img"
      using pixel_index_lt [of img p] p(1) by (simp add: opaque_def mult.commute)
    then have "p \<in> \<Union>S" using seen [OF p(1)] S(2) by simp
    then obtain D where D: "D \<in> S" "p \<in> D" by auto
    have "D = C" using components_overlap [of D img C p] D S(1) C p(2) component_self by auto
    then show "C \<in> S" using D(1) by simp
  qed
  then show ?thesis using S(1,3) by (simp add: subset_antisym)
qed

lemma ds_scan_total:
  "\<exists>v rects. ds_scan img = Some (v, rects)
     \<and> mset rects = image_mset bounding_rect (mset_set (components img))"
proof -
  have "\<exists>st'. opt_fold (\<lambda>y. opt_fold (ds_pixel img y) [0..<img_width img]) [0..<img_height img]
        (replicate (img_width img * img_height img) 0, []) = Some st'
      \<and> scan_inv img (img_height img * img_width img) st'"
    by (rule opt_fold_upt [where I = "\<lambda>y. scan_inv img (y * img_width img)"])
       (use scan_inv_init ds_row_inv in auto)
  then obtain v rects where "ds_scan img = Some (v, rects)"
    "scan_inv img (img_height img * img_width img) (v, rects)"
    unfolding ds_scan_def by (metis surj_pair)
  then show ?thesis using scan_inv_final by blast
qed

subsection \<open>The sort\<close>

lemma mset_sort_insert [simp]: "mset (sort_insert cmp a xs) = add_mset a (mset xs)"
  by (induction xs) simp_all

lemma mset_fold_sort_insert: "mset (fold (sort_insert cmp) xs acc) = mset xs + mset acc"
  by (induction xs arbitrary: acc) simp_all

lemma mset_js_sort [simp]: "mset (js_sort cmp xs) = mset xs"
  by (simp add: js_sort_def mset_fold_sort_insert)

lemma reading_order_compare: "reading_order a b \<longleftrightarrow> compare_rects a b \<le> 0"
  by (simp add: reading_order_def compare_rects_def Let_def)

lemma compare_rects_flip: "compare_rects b a = - compare_rects a b"
  by (simp add: compare_rects_def Let_def abs_minus_commute)

lemma reading_order_total: "\<not> compare_rects a b < 0 \<Longrightarrow> reading_order b a"
  using compare_rects_flip [of b a] by (simp add: reading_order_compare)

lemma hd_sort_insert:
  "hd (sort_insert cmp a xs) = (if xs = [] \<or> cmp a (hd xs) < 0 then a else hd xs)"
  by (cases xs) simp_all

lemma sort_insert_not_Nil [simp]: "sort_insert cmp a xs \<noteq> []"
  by (cases xs) simp_all

lemma successively_sort_insert:
  "successively reading_order xs \<Longrightarrow> successively reading_order (sort_insert compare_rects a xs)"
proof (induction xs)
  case Nil
  then show ?case by simp
next
  case (Cons b bs)
  show ?case
  proof (cases "compare_rects a b < 0")
    case True
    then have "reading_order a b" by (simp add: reading_order_compare)
    then show ?thesis using True Cons.prems by simp
  next
    case False
    then have ba: "reading_order b a" by (rule reading_order_total)
    have tl: "successively reading_order (sort_insert compare_rects a bs)"
      using Cons by (auto simp: successively_Cons)
    have "reading_order b (hd (sort_insert compare_rects a bs))"
      using ba Cons.prems by (auto simp: hd_sort_insert successively_Cons)
    then show ?thesis using False tl by (simp add: successively_Cons)
  qed
qed

lemma successively_js_sort: "successively reading_order (js_sort compare_rects xs)"
proof -
  have "successively reading_order acc \<Longrightarrow>
      successively reading_order (fold (sort_insert compare_rects) xs acc)" for acc
    by (induction xs arbitrary: acc) (simp_all add: successively_sort_insert)
  then show ?thesis by (simp add: js_sort_def)
qed

lemma detectSprites_total:
  "\<exists>rs. detectSprites img = Some rs
     \<and> mset rs = image_mset bounding_rect (mset_set (components img))
     \<and> successively reading_order rs"
proof -
  obtain v rects where "ds_scan img = Some (v, rects)"
    "mset rects = image_mset bounding_rect (mset_set (components img))"
    using ds_scan_total by blast
  then show ?thesis by (simp add: detectSprites_def successively_js_sort)
qed

lemma components_empty:
  assumes "\<forall>p. in_image img p \<longrightarrow> channel img p 3 \<le> 10"
  shows "components img = {}"
proof -
  have "\<not> opaque img p" for p
    using assms [rule_format, of p] by (auto simp: opaque_def)
  then show ?thesis by (simp add: components_def)
qed

lemma components_single_pixel:
  assumes "{q. opaque img q} = {p}"
  shows "components img = {{p}}"
proof -
  have op: "opaque img p" using assms by auto
  have "component_of img p \<subseteq> {p}"
    using component_opaque [OF _ op] assms by auto
  then have "component_of img p = {p}" using component_self [of p img] by auto
  then show ?thesis using assms by (simp add: components_def)
qed

lemma bounding_rect_pixel: "bounding_rect {p} = pixel_rect (real (fst p)) (real (snd p))"
  by (simp add: bounding_rect_def pixel_rect_def)

text \<open>
  Claim C1. For every well-formed image the scan of \<^verbatim>\<open>detectSprites\<close> ends, and the returned
  rectangles are, as a multiset, the tight bounding boxes
  \<open>{minX, minY, maxX - minX + 1, maxY - minY + 1}\<close> of the 4-connected components of the
  pixels with alpha above 10, one rectangle for each component. In particular an image with
  exactly one component yields exactly its bounding box, an image with a single opaque pixel
  yields the \<open>1 \<times> 1\<close> rectangle at that pixel, and an image whose pixels all have alpha at
  most 10 yields the empty list.
\<close>
theorem detect_components:
  assumes "wf_image img"
  shows "\<exists>rs. detectSprites img = Some rs \<and>
      mset rs = image_mset bounding_rect (mset_set (components img)) \<and>
      (\<forall>C. components img = {C} \<longrightarrow> rs = [bounding_rect C]) \<and>
      (\<forall>p. {q. opaque img q} = {p} \<longrightarrow> rs = [pixel_rect (real (fst p)) (real (snd p))]) \<and>
      ((\<forall>p. in_image img p \<longrightarrow> channel img p 3 \<le> 10) \<longrightarrow> rs = [])"
proof -
  obtain rs where rs: "detectSprites img = Some rs"
    "mset rs = image_mset bounding_rect (mset_set (components img))"
    using detectSprites_total by blast
  have one: "rs = [bounding_rect C]" if "components img = {C}" for C
    using rs(2) that by simp
  have px: "rs = [pixel_rect (real (fst p)) (real (snd p))]" if "{q. opaque img q} = {p}" for p
    using one [OF components_single_pixel [OF that]] by (simp add: bounding_rect_pixel)
  have none: "rs = []" if "\<forall>p. in_image img p \<longrightarrow> channel img p 3 \<le> 10"
    using rs(2) components_empty [OF that] by simp
  show ?thesis using rs one px none by blast
qed

theorem detect_components_witness:
  "wf_image staircase \<and>
   detectSprites staircase = Some [pixel_rect 0 11, pixel_rect 1 6, pixel_rect 2 0] \<and>
   mset [pixel_rect 0 11, pixel_rect 1 6, pixel_rect 2 0] =
     image_mset bounding_rect (mset_set (components staircase))"
proof -
  have h: "wf_image staircase" by (simp add: wf_image_def staircase_def)
  have e: "detectSprites staircase = Some [pixel_rect 0 11, pixel_rect 1 6, pixel_rect 2 0]"
    by code_simp
  from detect_components [OF h] e h show ?thesis by auto
qed

subsection \<open>The contract of the sort\<close>

lemma detectSprites_js_sort: "detectSprites img = detectSpritesWith js_sort img"
  by (simp add: detectSprites_def detectSpritesWith_def)

lemma consistent_flip:
  assumes c: "consistent_comparator cmp S" and m: "a \<in> S" "b \<in> S" and l: "cmp a b < 0"
  shows "cmp b a > 0"
proof (rule ccontr)
  assume "\<not> cmp b a > 0"
  then consider "cmp b a = 0" | "cmp b a < 0" by fastforce
  then show False
  proof cases
    case 1
    then have "cmp a b = 0" using c m unfolding consistent_comparator_def by blast
    then show False using l by simp
  next
    case 2
    then have "cmp a a < 0" using c m l unfolding consistent_comparator_def by blast
    moreover have "cmp a a = 0" using c m unfolding consistent_comparator_def by blast
    ultimately show False by simp
  qed
qed

lemma consistent_le_trans:
  assumes c: "consistent_comparator cmp S" and m: "a \<in> S" "b \<in> S" "x \<in> S"
    and ab: "\<not> cmp b a < 0" and bx: "\<not> cmp x b < 0"
  shows "\<not> cmp x a < 0"
proof
  assume xa: "cmp x a < 0"
  then have ax: "cmp a x > 0" using consistent_flip [OF c m(3) m(1)] by simp
  have sym: "\<And>u v. u \<in> S \<Longrightarrow> v \<in> S \<Longrightarrow> cmp u v = 0 \<Longrightarrow> cmp v u = 0"
    using c unfolding consistent_comparator_def by blast
  have teq: "\<And>u v w. u \<in> S \<Longrightarrow> v \<in> S \<Longrightarrow> w \<in> S \<Longrightarrow> cmp u v = 0 \<Longrightarrow> cmp v w = 0 \<Longrightarrow> cmp u w = 0"
    using c unfolding consistent_comparator_def by blast
  have tgt: "\<And>u v w. u \<in> S \<Longrightarrow> v \<in> S \<Longrightarrow> w \<in> S \<Longrightarrow> cmp u v > 0 \<Longrightarrow> cmp v w > 0 \<Longrightarrow> cmp u w > 0"
    using c unfolding consistent_comparator_def by blast
  consider "cmp b a = 0" "cmp x b = 0" | "cmp b a = 0" "cmp x b > 0"
    | "cmp b a > 0" "cmp x b = 0" | "cmp b a > 0" "cmp x b > 0"
    using ab bx by fastforce
  then show False
  proof cases
    case 1
    then have "cmp x a = 0" using teq [OF m(3) m(2) m(1)] by simp
    then show False using xa by simp
  next
    case 2
    have "cmp a b > 0" using tgt [OF m(1) m(3) m(2) ax 2(2)] .
    moreover have "cmp a b = 0" using sym [OF m(2) m(1) 2(1)] .
    ultimately show False by simp
  next
    case 3
    have "cmp b x > 0" using tgt [OF m(2) m(1) m(3) 3(1) ax] .
    moreover have "cmp b x = 0" using sym [OF m(3) m(2) 3(2)] .
    ultimately show False by simp
  next
    case 4
    have "cmp x a > 0" using tgt [OF m(3) m(2) m(1) 4(2) 4(1)] .
    then show False using xa by simp
  qed
qed

lemma set_sort_insert [simp]: "set (sort_insert cmp a xs) = insert a (set xs)"
  by (induction xs) auto

lemma sorted_sort_insert:
  assumes c: "consistent_comparator cmp S" and a: "a \<in> S"
  shows "set xs \<subseteq> S \<Longrightarrow> sorted_wrt (\<lambda>u v. \<not> cmp v u < 0) xs \<Longrightarrow>
    sorted_wrt (\<lambda>u v. \<not> cmp v u < 0) (sort_insert cmp a xs)"
proof (induction xs)
  case Nil
  then show ?case by simp
next
  case (Cons b bs)
  have b: "b \<in> S" and bs: "set bs \<subseteq> S" using Cons.prems(1) by auto
  show ?case
  proof (cases "cmp a b < 0")
    case True
    have ab: "\<not> cmp b a < 0" using consistent_flip [OF c a b True] by simp
    have "\<not> cmp z a < 0" if "z \<in> set bs" for z
    proof -
      have "\<not> cmp z b < 0" using Cons.prems(2) that by simp
      then show ?thesis using consistent_le_trans [OF c a b _ ab] bs that by blast
    qed
    then show ?thesis using True ab Cons.prems(2) by simp
  next
    case False
    have "sorted_wrt (\<lambda>u v. \<not> cmp v u < 0) (sort_insert cmp a bs)"
      using Cons.IH [OF bs] Cons.prems(2) by simp
    then show ?thesis using False Cons.prems(2) by simp
  qed
qed

lemma sorted_fold_sort_insert:
  assumes c: "consistent_comparator cmp S"
  shows "set xs \<subseteq> S \<Longrightarrow> set acc \<subseteq> S \<Longrightarrow> sorted_wrt (\<lambda>u v. \<not> cmp v u < 0) acc \<Longrightarrow>
    sorted_wrt (\<lambda>u v. \<not> cmp v u < 0) (fold (sort_insert cmp) xs acc)"
proof (induction xs arbitrary: acc)
  case Nil
  then show ?case by simp
next
  case (Cons x xs)
  have "sorted_wrt (\<lambda>u v. \<not> cmp v u < 0) (sort_insert cmp x acc)"
    using sorted_sort_insert [OF c _ Cons.prems(2,3)] Cons.prems(1) by simp
  then show ?case using Cons.IH [of "sort_insert cmp x acc"] Cons.prems(1,2) by simp
qed

lemma sort_contract_js_sort: "sort_contract js_sort"
proof -
  have "sorted_wrt (\<lambda>u v. \<not> cmp v u < 0) (fold (sort_insert cmp) xs [])"
    if "consistent_comparator cmp (set xs)" for cmp :: "'a \<Rightarrow> 'a \<Rightarrow> real" and xs
    using sorted_fold_sort_insert [OF that, of xs "[]"] by simp
  then show ?thesis
    unfolding sort_contract_def js_sort_def by (simp add: mset_fold_sort_insert)
qed

lemma in_rows_consistent:
  assumes "in_rows S"
  shows "consistent_comparator compare_rects S"
proof -
  have r: "\<And>a b c. a \<in> S \<Longrightarrow> b \<in> S \<Longrightarrow> c \<in> S \<Longrightarrow>
      \<bar>rect_y a - rect_y b\<bar> \<le> 10 \<Longrightarrow> \<bar>rect_y b - rect_y c\<bar> \<le> 10 \<Longrightarrow> \<bar>rect_y a - rect_y c\<bar> \<le> 10"
    using assms unfolding in_rows_def same_row_def by blast
  have s: "\<bar>rect_y a - rect_y b\<bar> \<le> 10 \<longleftrightarrow> \<bar>rect_y b - rect_y a\<bar> \<le> 10" for a b :: rect
    by (simp add: abs_minus_commute)
  have t: "compare_rects a c < 0"
    if "a \<in> S" "b \<in> S" "c \<in> S" "compare_rects a b < 0" "compare_rects b c < 0" for a b c
    using that r [of a b c] r [of b a c] r [of a c b] s [of a b] s [of a c] s [of b c]
    unfolding compare_rects_def Let_def by (auto split: if_splits)
  have e: "compare_rects a c = 0"
    if "a \<in> S" "b \<in> S" "c \<in> S" "compare_rects a b = 0" "compare_rects b c = 0" for a b c
    using that r [of a b c]
    unfolding compare_rects_def Let_def by (auto split: if_splits)
  have g: "compare_rects a c > 0"
    if "a \<in> S" "b \<in> S" "c \<in> S" "compare_rects a b > 0" "compare_rects b c > 0" for a b c
    using t [of c b a] that compare_rects_flip [of a b] compare_rects_flip [of b c]
      compare_rects_flip [of a c] by simp
  have y: "compare_rects b a = 0" if "compare_rects a b = 0" for a b
    using that compare_rects_flip [of a b] by simp
  have x: "compare_rects a a = 0" for a by (simp add: compare_rects_def)
  show ?thesis
    unfolding consistent_comparator_def using x y e t g by blast
qed

lemma in_rows_two: "in_rows {a, b}"
  unfolding in_rows_def same_row_def by (auto simp: abs_minus_commute)

lemma sorted_reading_order:
  "sorted_wrt (\<lambda>u v. \<not> compare_rects v u < 0) rs = sorted_wrt reading_order rs"
proof -
  have "(\<not> compare_rects v u < 0) = reading_order u v" for u v
    using compare_rects_flip [of v u] by (auto simp: reading_order_compare)
  then show ?thesis by simp
qed

text \<open>
  Claim C2, as the code has it. The order of the list is that of the engine's
  \<^verbatim>\<open>Array.prototype.sort\<close> under the comparator of the source, so the claim is stated for
  every sort that keeps the ECMAScript contract. For every well-formed image the detection
  ends, and whenever the comparator is a consistent comparison function for the rectangles
  found, as it is whenever they fall into rows, any two rectangles \<open>a\<close> before \<open>b\<close> of the
  returned list are in reading order: if \<open>\<bar>a.y - b.y\<bar> \<le> 10\<close> then \<open>a.x \<le> b.x\<close>, otherwise
  \<open>a.y \<le> b.y\<close>. A result of exactly two rectangles is always so: ascending by \<open>x\<close> when
  \<open>\<bar>\<Delta>y\<bar> \<le> 10\<close> and ascending by \<open>y\<close> when \<open>\<bar>\<Delta>y\<bar> > 10\<close>. Where the comparator is not
  consistent the order is implementation-defined, and nothing is stated of it.
\<close>
theorem detect_reading_order:
  assumes "wf_image img" and "sort_contract srt"
  shows "\<exists>rs. detectSpritesWith srt img = Some rs \<and>
      (consistent_comparator compare_rects (set rs) \<longrightarrow> sorted_wrt reading_order rs) \<and>
      (in_rows (set rs) \<longrightarrow> sorted_wrt reading_order rs) \<and>
      (\<forall>a b. rs = [a, b] \<longrightarrow>
         (\<bar>rect_y a - rect_y b\<bar> \<le> 10 \<longrightarrow> rect_x a \<le> rect_x b) \<and>
         (\<bar>rect_y a - rect_y b\<bar> > 10 \<longrightarrow> rect_y a \<le> rect_y b))"
proof -
  obtain v rects where sc: "ds_scan img = Some (v, rects)"
    using ds_scan_total by blast
  let ?rs = "srt compare_rects rects"
  have rs: "detectSpritesWith srt img = Some ?rs" by (simp add: detectSpritesWith_def sc)
  have ms: "mset ?rs = mset rects" using assms(2) unfolding sort_contract_def by blast
  then have st: "set ?rs = set rects" by (rule mset_eq_setD)
  have con: "sorted_wrt reading_order ?rs" if "consistent_comparator compare_rects (set ?rs)"
  proof -
    have "sorted_wrt (\<lambda>u v. \<not> compare_rects v u < 0) ?rs"
      using assms(2) that st unfolding sort_contract_def by simp
    then show ?thesis by (simp add: sorted_reading_order)
  qed
  have two: "(\<bar>rect_y a - rect_y b\<bar> \<le> 10 \<longrightarrow> rect_x a \<le> rect_x b) \<and>
      (\<bar>rect_y a - rect_y b\<bar> > 10 \<longrightarrow> rect_y a \<le> rect_y b)" if "?rs = [a, b]" for a b
  proof -
    have "set ?rs = {a, b}" using that by simp
    then have "sorted_wrt reading_order ?rs"
      using con in_rows_consistent [OF in_rows_two [of a b]] by simp
    then show ?thesis using that by (auto simp: reading_order_def split: if_splits)
  qed
  show ?thesis using rs con two in_rows_consistent by blast
qed

theorem detect_reading_order_witness:
  "wf_image two_blobs \<and> sort_contract (js_sort :: (rect \<Rightarrow> rect \<Rightarrow> real) \<Rightarrow> rect list \<Rightarrow> rect list) \<and>
   detectSpritesWith js_sort two_blobs = Some [pixel_rect 0 1, pixel_rect 2 0] \<and>
   in_rows (set [pixel_rect 0 1, pixel_rect 2 0]) \<and>
   sorted_wrt reading_order [pixel_rect 0 1, pixel_rect 2 0] \<and>
   \<bar>rect_y (pixel_rect 0 1) - rect_y (pixel_rect 2 0)\<bar> \<le> 10 \<and>
   rect_x (pixel_rect 0 1) \<le> rect_x (pixel_rect 2 0)"
proof -
  have h: "wf_image two_blobs" by (simp add: wf_image_def two_blobs_def)
  have e: "detectSpritesWith js_sort two_blobs = Some [pixel_rect 0 1, pixel_rect 2 0]"
    by code_simp
  have r: "in_rows (set [pixel_rect 0 1, pixel_rect 2 0])"
    using in_rows_two [of "pixel_rect 0 1" "pixel_rect 2 0"] by simp
  from detect_reading_order [OF h sort_contract_js_sort] e h r sort_contract_js_sort
  show ?thesis by (auto simp: pixel_rect_def)
qed

text \<open>
  Claim C2 as stated, for any two returned rectangles, does not hold: the comparator is not
  transitive. On the staircase image the first and the last returned rectangle are 11 rows
  apart and the first lies below the last.
\<close>
theorem detect_any_two_counterexample:
  "detectSprites staircase = Some [pixel_rect 0 11, pixel_rect 1 6, pixel_rect 2 0] \<and>
   \<not> reading_order (pixel_rect 0 11) (pixel_rect 2 0)"
proof -
  have "detectSprites staircase = Some [pixel_rect 0 11, pixel_rect 1 6, pixel_rect 2 0]"
    by code_simp
  then show ?thesis by (simp add: reading_order_def pixel_rect_def)
qed

text \<open>
  On these three rectangles the comparator is not a consistent comparison function, and
  whatever order a sort returns them in, two of them are out of order.
\<close>

lemma staircase_not_consistent:
  "\<not> consistent_comparator compare_rects {pixel_rect 0 11, pixel_rect 1 6, pixel_rect 2 0}"
proof
  assume "consistent_comparator compare_rects {pixel_rect 0 11, pixel_rect 1 6, pixel_rect 2 0}"
  then have "compare_rects (pixel_rect 0 11) (pixel_rect 1 6) < 0 \<and>
      compare_rects (pixel_rect 1 6) (pixel_rect 2 0) < 0 \<longrightarrow>
      compare_rects (pixel_rect 0 11) (pixel_rect 2 0) < 0"
    unfolding consistent_comparator_def by blast
  then show False by (simp add: compare_rects_def pixel_rect_def)
qed

lemma staircase_no_order:
  assumes "mset rs = mset [pixel_rect 0 11, pixel_rect 1 6, pixel_rect 2 0]"
  shows "\<not> sorted_wrt reading_order rs"
proof
  assume s: "sorted_wrt reading_order rs"
  let ?A = "pixel_rect 0 11" and ?B = "pixel_rect 1 6" and ?C = "pixel_rect 2 0"
  have n: "\<not> reading_order ?A ?C" "\<not> reading_order ?C ?B" "\<not> reading_order ?B ?A"
    by (simp_all add: reading_order_def pixel_rect_def)
  have ne: "?A \<noteq> ?B" "?A \<noteq> ?C" "?B \<noteq> ?C"
    by (simp_all add: pixel_rect_def)
  obtain x xs where rs: "rs = x # xs" using assms by (cases rs) auto
  have all: "\<forall>y\<in>set xs. reading_order x y" using s rs by simp
  have m: "add_mset x (mset xs) = {#?A, ?B, ?C#}" using assms rs by simp
  then have "x \<in># {#?A, ?B, ?C#}" by (metis union_single_eq_member)
  then consider "x = ?A" | "x = ?B" | "x = ?C" by auto
  then show False
  proof cases
    case 1
    then have "mset xs = {#?B, ?C#}" using m by simp
    then have "?C \<in> set xs" by (metis in_multiset_in_set add_mset_commute union_single_eq_member)
    then show False using all n(1) 1 by auto
  next
    case 2
    then have "mset xs = {#?A, ?C#}" using m by (simp add: add_mset_commute)
    then have "?A \<in> set xs" by (metis in_multiset_in_set union_single_eq_member)
    then show False using all n(3) 2 by auto
  next
    case 3
    then have "add_mset ?C (mset xs) = add_mset ?C {#?A, ?B#}"
      using m by (simp add: add_mset_commute)
    then have "mset xs = {#?A, ?B#}" by simp
    then have "?B \<in> set xs" by (metis in_multiset_in_set add_mset_commute union_single_eq_member)
    then show False using all n(2) 3 by auto
  qed
qed

end
